theory Spec2Isabelle
  imports Main
begin

section \<open>The dynamic namespace registry (src/dbnode/storage/namespace/dynamic.go)\<close>

text \<open>
  A shallow embedding of \<^verbatim>\<open>dynamic.go\<close>: the initializer, the construction of the
  registry, its synchronization loop \<^verbatim>\<open>run\<close>, the metrics sampler, \<^verbatim>\<open>Watch\<close> and
  \<^verbatim>\<open>Close\<close>. Go's mutable objects become records passed explicitly, the registry the
  initializer points to lives in a heap and is named by its address, every error return
  is a value of \<open>error + 'a\<close> or \<open>error option\<close> (\<open>None\<close> is Go's \<^verbatim>\<open>nil\<close> error), and the
  goroutines become the events of an interleaving semantics, one event per critical
  section of a lock. Calls to the logger change no state of the registry and are left
  out.
\<close>

subsection \<open>Errors\<close>

text \<open>
  The three package-level errors of \<^verbatim>\<open>dynamic.go\<close>; \<open>errWatchableClosed\<close> is the error of
  a closed broadcast hub, and \<open>errExternal\<close> carries an error made outside this file
  (options validation, the config service client, the key-value store, \<^verbatim>\<open>FromProto\<close>).
\<close>

datatype error =
    errInitTimeOut
  | errRegistryAlreadyClosed
  | errInvalidRegistry
  | errWatchableClosed
  | errExternal string

subsection \<open>Collaborators that live outside the file\<close>

text \<open>
  \<^verbatim>\<open>DynamicOptions\<close>: the two settings the file reads. \<open>InitTimeout\<close> is a
  \<^verbatim>\<open>time.Duration\<close> (a signed number of nanoseconds).
\<close>

record DynamicOptions =
  InitTimeout :: int
  NamespaceRegistryKey :: string

text \<open>
  The methods of \<^verbatim>\<open>kv.Value\<close>, of the protobuf decoder, of \<^verbatim>\<open>Map\<close> and of
  \<^verbatim>\<open>DynamicOptions\<close> that the file calls are parameters: \<open>'v\<close> is a (non-nil) \<^verbatim>\<open>kv.Value\<close>,
  \<open>'p\<close> a decoded \<^verbatim>\<open>nsproto.Registry\<close>, \<open>'m\<close> a namespace \<^verbatim>\<open>Map\<close>. A \<^verbatim>\<open>kv.Value\<close> that may
  be \<^verbatim>\<open>nil\<close> is a \<open>'v option\<close>. \<open>Unmarshal\<close> returns \<open>None\<close> when \<^verbatim>\<open>val.Unmarshal\<close> returns an
  error.
\<close>

record ('v, 'p, 'm) collaborators =
  Version :: "'v \<Rightarrow> int"
  IsNewer :: "'v \<Rightarrow> 'v option \<Rightarrow> bool"
  Unmarshal :: "'v \<Rightarrow> 'p option"
  FromProto :: "'p \<Rightarrow> error + 'm"
  Equal :: "'m \<Rightarrow> 'm \<Rightarrow> bool"
  Validate :: "DynamicOptions \<Rightarrow> error option"

text \<open>
  What the config service does during one call of \<^verbatim>\<open>newDynamicRegistry\<close>: whether
  \<^verbatim>\<open>KV()\<close> and \<^verbatim>\<open>kvStore.Watch(key)\<close> fail, the logical time (in nanoseconds after the
  watch was opened) at which the first notification is ready on the channel of the watch
  (\<open>None\<close>: never), which case Go's \<^verbatim>\<open>select\<close> takes when the channel and the timer are
  ready at the same instant, and what \<^verbatim>\<open>watch.Get()\<close> returns at each instant.
\<close>

record 'v remote =
  KV_err :: "error option"
  Watch_err :: "string \<Rightarrow> error option"
  arrival :: "nat option"
  tie_takes_channel :: bool
  Get_at :: "nat \<Rightarrow> 'v option"

subsection \<open>The broadcast hub\<close>

text \<open>
  Modelled from the spec: the broadcast hub (\<^verbatim>\<open>xwatch.Watchable\<close>), which is not in the
  sources. Section 4.5 of the specification: \<^verbatim>\<open>Update\<close> stores the latest value and makes
  it visible to subscribers; \<^verbatim>\<open>Subscribe\<close> registers a consumer whose handle yields the
  current value first; \<^verbatim>\<open>Close\<close> unsubscribes all consumers, then rejects further
  \<^verbatim>\<open>Update\<close> and \<^verbatim>\<open>Subscribe\<close> calls. The model keeps every accepted update, oldest first
  (the latest value is the last one), and the number of live subscriptions. A handle
  records its number and the value it yields first.
\<close>

record 'm watchable =
  w_updates :: "'m list"
  w_closed :: bool
  w_active :: nat

record 'm subscription =
  sub_id :: nat
  sub_first :: "'m option"

text \<open>Modelled from the spec: a new hub holds no value, is open and has no subscriber.\<close>

definition NewWatchable :: "'m watchable" where
  "NewWatchable = \<lparr>w_updates = [], w_closed = False, w_active = 0\<rparr>"

text \<open>
  Modelled from the spec: \<^verbatim>\<open>Update\<close> of the hub stores the value as the latest one; a
  closed hub rejects it.
\<close>

definition w_Update :: "'m watchable \<Rightarrow> 'm \<Rightarrow> error option \<times> 'm watchable" where
  "w_Update w m =
     (if w_closed w then (Some errWatchableClosed, w)
      else (None, w\<lparr>w_updates := w_updates w @ [m]\<rparr>))"

text \<open>Modelled from the spec: the current value of the hub, if it has one.\<close>

definition w_latest :: "'m watchable \<Rightarrow> 'm option" where
  "w_latest w = (case rev (w_updates w) of [] \<Rightarrow> None | m # _ \<Rightarrow> Some m)"

text \<open>
  Modelled from the spec: \<^verbatim>\<open>Subscribe\<close> of the hub (\<^verbatim>\<open>watchable.Watch()\<close>) returns the
  current value and a handle that yields it first; a closed hub rejects the call.
\<close>

definition w_Watch :: "'m watchable \<Rightarrow> (error + 'm option \<times> 'm subscription) \<times> 'm watchable" where
  "w_Watch w =
     (if w_closed w then (Inl errWatchableClosed, w)
      else (Inr (w_latest w, \<lparr>sub_id = w_active w, sub_first = w_latest w\<rparr>),
            w\<lparr>w_active := Suc (w_active w)\<rparr>))"

text \<open>
  Modelled from the spec: \<^verbatim>\<open>Close\<close> of the hub unsubscribes every consumer and marks the
  hub closed.
\<close>

definition w_Close :: "'m watchable \<Rightarrow> 'm watchable" where
  "w_Close w = (if w_closed w then w else w\<lparr>w_closed := True, w_active := 0\<rparr>)"

subsection \<open>The registry\<close>

text \<open>
  A goroutine of the registry is at the head of its loop, blocked (on the channel of the
  watch, or on the ticker), has returned, or has panicked.
\<close>

datatype goroutine = AtLoopHead | Blocked | Exited | Panicked

text \<open>
  \<^verbatim>\<open>dynamicRegistry\<close>. \<open>kvWatch_closed\<close> is the state of the \<^verbatim>\<open>kv.ValueWatch\<close> handle
  (\<^verbatim>\<open>kvWatch.Close()\<close> is its only method that changes it); \<open>numInvalidUpdates\<close> and
  \<open>currentVersion\<close> are the counter and the gauge of \<^verbatim>\<open>dynamicRegistryMetrics\<close> (the gauge
  holds the version as an integer; \<open>None\<close>: never updated); \<open>run_thread\<close> and
  \<open>metrics_thread\<close> are the goroutines started by \<^verbatim>\<open>go dt.run()\<close> and
  \<^verbatim>\<open>go dt.reportMetrics()\<close>.
\<close>

record ('v, 'm) dynamicRegistry =
  opts :: DynamicOptions
  watchable :: "'m watchable"
  kvWatch_closed :: bool
  currentValue :: "'v option"
  currentMap :: 'm
  closed :: bool
  numInvalidUpdates :: nat
  currentVersion :: "int option"
  run_thread :: goroutine
  metrics_thread :: goroutine

definition isClosed :: "('v, 'm) dynamicRegistry \<Rightarrow> bool" where
  "isClosed r = closed r"

definition value_r :: "('v, 'm) dynamicRegistry \<Rightarrow> 'v option" where
  "value_r r = currentValue r"

definition maps_r :: "('v, 'm) dynamicRegistry \<Rightarrow> 'm" where
  "maps_r r = currentMap r"

text \<open>
  \<^verbatim>\<open>getMapFromUpdate\<close>: a nil value and a value that does not unmarshal give
  \<open>errInvalidRegistry\<close>; the result of \<^verbatim>\<open>FromProto\<close> is returned as it is.
\<close>

definition getMapFromUpdate :: "('v, 'p, 'm) collaborators \<Rightarrow> 'v option \<Rightarrow> error + 'm" where
  "getMapFromUpdate env val =
     (case val of
        None \<Rightarrow> Inl errInvalidRegistry
      | Some v \<Rightarrow>
          (case Unmarshal env v of
             None \<Rightarrow> Inl errInvalidRegistry
           | Some protoRegistry \<Rightarrow> FromProto env protoRegistry))"

text \<open>
  \<^verbatim>\<open>waitOnInit\<close>, with the time it blocks: not at all when \<open>d \<le> 0\<close>; otherwise until the
  first notification or until the timer of \<^verbatim>\<open>time.After(d)\<close> fires after \<open>d\<close> nanoseconds,
  whichever comes first.
\<close>

definition waitOnInit :: "'v remote \<Rightarrow> int \<Rightarrow> nat \<times> error option" where
  "waitOnInit w d =
     (if d \<le> 0 then (0, None)
      else (case arrival w of
              None \<Rightarrow> (nat d, Some errInitTimeOut)
            | Some t \<Rightarrow>
                if int t < d \<or> (int t = d \<and> tie_takes_channel w) then (t, None)
                else (nat d, Some errInitTimeOut)))"

text \<open>
  \<^verbatim>\<open>newDynamicRegistry\<close>. The value is read by \<^verbatim>\<open>watch.Get()\<close> at the instant
  \<^verbatim>\<open>waitOnInit\<close> returns. The hub is fresh, so its first \<^verbatim>\<open>Update\<close> is accepted.
\<close>

definition newDynamicRegistry ::
  "('v, 'p, 'm) collaborators \<Rightarrow> 'v remote \<Rightarrow> DynamicOptions \<Rightarrow> error + ('v, 'm) dynamicRegistry" where
  "newDynamicRegistry env rem os =
     (case KV_err rem of
        Some err \<Rightarrow> Inl err
      | None \<Rightarrow>
     (case Watch_err rem (NamespaceRegistryKey os) of
        Some err \<Rightarrow> Inl err
      | None \<Rightarrow>
     (case waitOnInit rem (InitTimeout os) of
        (t, Some err) \<Rightarrow> Inl err
      | (t, None) \<Rightarrow>
          (let initValue = Get_at rem t in
           case getMapFromUpdate env initValue of
             Inl err \<Rightarrow> Inl err
           | Inr m \<Rightarrow>
               Inr \<lparr>opts = os,
                    watchable = snd (w_Update NewWatchable m),
                    kvWatch_closed = False,
                    currentValue = initValue,
                    currentMap = m,
                    closed = False,
                    numInvalidUpdates = 0,
                    currentVersion = None,
                    run_thread = AtLoopHead,
                    metrics_thread = Blocked\<rparr>))))"

text \<open>\<^verbatim>\<open>Close\<close>: the error it returns and the registry afterwards.\<close>

definition Close :: "('v, 'm) dynamicRegistry \<Rightarrow> error option \<times> ('v, 'm) dynamicRegistry" where
  "Close r =
     (if closed r then (Some errRegistryAlreadyClosed, r)
      else (None, r\<lparr>closed := True,
                    kvWatch_closed := True,
                    watchable := w_Close (watchable r)\<rparr>))"

text \<open>
  \<^verbatim>\<open>Watch\<close>: the error of the hub is returned as it is; \<^verbatim>\<open>NewWatch\<close> wraps the handle of
  the hub and is the identity here.
\<close>

definition Watch :: "('v, 'm) dynamicRegistry \<Rightarrow> (error + 'm subscription) \<times> ('v, 'm) dynamicRegistry" where
  "Watch r =
     (case w_Watch (watchable r) of
        (Inl err, w) \<Rightarrow> (Inl err, r)
      | (Inr (_, s), w) \<Rightarrow> (Inr s, r\<lparr>watchable := w\<rparr>))"

subsection \<open>The synchronization loop\<close>

text \<open>
  What a receive on \<^verbatim>\<open>r.kvWatch.C()\<close> gives: the channel is closed, or a notification
  arrived, after which \<^verbatim>\<open>r.kvWatch.Get()\<close> returns the value given (\<open>None\<close> is \<^verbatim>\<open>nil\<close>).
\<close>

datatype 'v received = ChanClosed | Notified "'v option"

definition invalidUpdate :: "('v, 'm) dynamicRegistry \<Rightarrow> ('v, 'm) dynamicRegistry" where
  "invalidUpdate r = r\<lparr>numInvalidUpdates := numInvalidUpdates r + 1\<rparr>"

text \<open>
  One pass through the body of the loop of \<^verbatim>\<open>run\<close>, from the receive to the end of the
  iteration. The boolean is \<open>False\<close> when the body leaves the loop (\<^verbatim>\<open>break\<close>). The error
  of \<^verbatim>\<open>r.Close()\<close> and the error of \<^verbatim>\<open>r.watchable.Update(m)\<close> are dropped, as in the
  source.
\<close>

definition run_body ::
  "('v, 'p, 'm) collaborators \<Rightarrow> 'v received \<Rightarrow> ('v, 'm) dynamicRegistry \<Rightarrow> bool \<times> ('v, 'm) dynamicRegistry" where
  "run_body env x r =
     (case x of
        ChanClosed \<Rightarrow> (False, snd (Close r))
      | Notified val \<Rightarrow>
          (case val of
             None \<Rightarrow> (True, invalidUpdate r)
           | Some v \<Rightarrow>
               if \<not> IsNewer env v (currentValue r) then (True, invalidUpdate r)
               else (case getMapFromUpdate env val of
                       Inl err \<Rightarrow> (True, invalidUpdate r)
                     | Inr m \<Rightarrow>
                         if Equal env m (maps_r r) then (True, invalidUpdate r)
                         else (True, r\<lparr>currentValue := val,
                                       currentMap := m,
                                       watchable := snd (w_Update (watchable r) m)\<rparr>))))"

text \<open>
  \<^verbatim>\<open>run\<close>, on the receives the loop makes while no other goroutine touches the registry:
  the state when the receives given are used up (the loop is then blocked on the channel)
  or when the loop has returned.
\<close>

fun run ::
  "('v, 'p, 'm) collaborators \<Rightarrow> 'v received list \<Rightarrow> ('v, 'm) dynamicRegistry \<Rightarrow> ('v, 'm) dynamicRegistry" where
  "run env [] r = r"
| "run env (x # xs) r =
     (if isClosed r then r\<lparr>run_thread := Exited\<rparr>
      else (case run_body env x r of
              (True, r') \<Rightarrow> run env xs r'
            | (False, r') \<Rightarrow> r'\<lparr>run_thread := Exited\<rparr>))"

text \<open>
  The same loop as two atomic steps of its goroutine, so that other goroutines can act in
  between: the test of the loop condition (\<^verbatim>\<open>!r.isClosed()\<close>, under the read lock), and
  the receive with the rest of the body (whose only writes to shared state are those of
  \<^verbatim>\<open>Close\<close> and of the section under the write lock). A step of a goroutine that is
  not at that point does nothing.
\<close>

definition run_guard :: "('v, 'm) dynamicRegistry \<Rightarrow> ('v, 'm) dynamicRegistry" where
  "run_guard r =
     (if run_thread r \<noteq> AtLoopHead then r
      else if isClosed r then r\<lparr>run_thread := Exited\<rparr>
      else r\<lparr>run_thread := Blocked\<rparr>)"

definition run_receive ::
  "('v, 'p, 'm) collaborators \<Rightarrow> 'v received \<Rightarrow> ('v, 'm) dynamicRegistry \<Rightarrow> ('v, 'm) dynamicRegistry" where
  "run_receive env x r =
     (if run_thread r \<noteq> Blocked then r
      else (case run_body env x r of
              (True, r') \<Rightarrow> r'\<lparr>run_thread := AtLoopHead\<rparr>
            | (False, r') \<Rightarrow> r'\<lparr>run_thread := Exited\<rparr>))"

text \<open>
  \<^verbatim>\<open>reportMetrics\<close>, one tick of its ticker: return when the registry is closed,
  otherwise set the gauge to the version of \<^verbatim>\<open>r.value()\<close> (a method call on a nil
  interface value panics).
\<close>

definition reportMetrics_tick ::
  "('v, 'p, 'm) collaborators \<Rightarrow> ('v, 'm) dynamicRegistry \<Rightarrow> ('v, 'm) dynamicRegistry" where
  "reportMetrics_tick env r =
     (if metrics_thread r \<noteq> Blocked then r
      else if isClosed r then r\<lparr>metrics_thread := Exited\<rparr>
      else (case value_r r of
              None \<Rightarrow> r\<lparr>metrics_thread := Panicked\<rparr>
            | Some v \<Rightarrow> r\<lparr>currentVersion := Some (Version env v)\<rparr>))"

subsection \<open>The initializer\<close>

text \<open>
  \<^verbatim>\<open>dynamicInitializer\<close>: its options and its registry, a pointer (\<open>None\<close> is \<^verbatim>\<open>nil\<close>).
  The state of the program is the initializer and the heap of the registries allocated
  so far; the address of a registry is its index in the heap.
\<close>

record dynamicInitializer =
  i_opts :: DynamicOptions
  i_reg :: "nat option"

record ('v, 'm) world =
  initializer :: dynamicInitializer
  heap :: "('v, 'm) dynamicRegistry list"

definition NewDynamicInitializer :: "DynamicOptions \<Rightarrow> ('v, 'm) world" where
  "NewDynamicInitializer os = \<lparr>initializer = \<lparr>i_opts = os, i_reg = None\<rparr>, heap = []\<rparr>"

text \<open>\<^verbatim>\<open>Init\<close>, under the lock of the initializer: the result and the program afterwards.\<close>

definition Init ::
  "('v, 'p, 'm) collaborators \<Rightarrow> 'v remote \<Rightarrow> ('v, 'm) world \<Rightarrow> (error + nat) \<times> ('v, 'm) world" where
  "Init env rem w =
     (case i_reg (initializer w) of
        Some a \<Rightarrow> (Inr a, w)
      | None \<Rightarrow>
          (case Validate env (i_opts (initializer w)) of
             Some err \<Rightarrow> (Inl err, w)
           | None \<Rightarrow>
               (case newDynamicRegistry env rem (i_opts (initializer w)) of
                  Inl err \<Rightarrow> (Inl err, w)
                | Inr reg \<Rightarrow>
                    (Inr (length (heap w)),
                     w\<lparr>heap := heap w @ [reg],
                       initializer := (initializer w)\<lparr>i_reg := Some (length (heap w))\<rparr>\<rparr>))))"

subsection \<open>Interleavings\<close>

text \<open>
  The atomic steps of the program: a call of \<^verbatim>\<open>Init\<close> (with what the config service
  does during it), the two steps of the loop of \<^verbatim>\<open>run\<close> and a tick of \<^verbatim>\<open>reportMetrics\<close>
  for the registry at an address, and calls of \<^verbatim>\<open>Close\<close> and \<^verbatim>\<open>Watch\<close> on it by any
  goroutine. A step on an address that holds no registry does nothing.
\<close>

datatype 'v event =
    CallInit "'v remote"
  | RunGuard nat
  | RunReceive nat "'v received"
  | MetricsTick nat
  | CallClose nat
  | CallWatch nat

definition on_registry ::
  "nat \<Rightarrow> (('v, 'm) dynamicRegistry \<Rightarrow> ('v, 'm) dynamicRegistry) \<Rightarrow> ('v, 'm) world \<Rightarrow> ('v, 'm) world" where
  "on_registry a f w = (if a < length (heap w) then w\<lparr>heap := (heap w)[a := f (heap w ! a)]\<rparr> else w)"

fun step :: "('v, 'p, 'm) collaborators \<Rightarrow> 'v event \<Rightarrow> ('v, 'm) world \<Rightarrow> ('v, 'm) world" where
  "step env (CallInit rem) w = snd (Init env rem w)"
| "step env (RunGuard a) w = on_registry a run_guard w"
| "step env (RunReceive a x) w = on_registry a (run_receive env x) w"
| "step env (MetricsTick a) w = on_registry a (reportMetrics_tick env) w"
| "step env (CallClose a) w = on_registry a (\<lambda>r. snd (Close r)) w"
| "step env (CallWatch a) w = on_registry a (\<lambda>r. snd (Watch r)) w"

fun exec :: "('v, 'p, 'm) collaborators \<Rightarrow> 'v event list \<Rightarrow> ('v, 'm) world \<Rightarrow> ('v, 'm) world" where
  "exec env [] w = w"
| "exec env (e # es) w = exec env es (step env e w)"

subsection \<open>The updates that pass the checks, in the words of the specification\<close>

text \<open>
  Section 4.3 of the specification: an update is rejected when the value is nil, when it
  is not newer than the value stored, when it does not parse, and when the parsed map is
  structurally equal to the map stored; otherwise it replaces the value and the map
  stored. \<open>passed_checks\<close> lists, in the order of delivery, the values that pass the four
  checks with their maps, starting from the value \<open>cv\<close> and the map \<open>cm\<close> stored.
\<close>

fun passed_checks ::
  "('v, 'p, 'm) collaborators \<Rightarrow> 'v option \<Rightarrow> 'm \<Rightarrow> 'v option list \<Rightarrow> ('v \<times> 'm) list" where
  "passed_checks env cv cm [] = []"
| "passed_checks env cv cm (None # ds) = passed_checks env cv cm ds"
| "passed_checks env cv cm (Some v # ds) =
     (if \<not> IsNewer env v cv then passed_checks env cv cm ds
      else (case getMapFromUpdate env (Some v) of
              Inl err \<Rightarrow> passed_checks env cv cm ds
            | Inr m \<Rightarrow>
                if Equal env m cm then passed_checks env cv cm ds
                else (v, m) # passed_checks env (Some v) m ds))"

text \<open>
  An update \<open>val\<close> that meets one of the four rejection conditions in a registry \<open>r\<close>.
\<close>

definition rejected :: "('v, 'p, 'm) collaborators \<Rightarrow> ('v, 'm) dynamicRegistry \<Rightarrow> 'v option \<Rightarrow> bool" where
  "rejected env r val =
     (case val of
        None \<Rightarrow> True
      | Some v \<Rightarrow>
          \<not> IsNewer env v (currentValue r) \<or>
          (case getMapFromUpdate env (Some v) of
             Inl err \<Rightarrow> True
           | Inr m \<Rightarrow> Equal env m (currentMap r)))"

subsection \<open>Auxiliary notions\<close>

text \<open>What an event does to the registry at address \<open>a\<close>.\<close>

fun reg_step ::
  "('v, 'p, 'm) collaborators \<Rightarrow> 'v event \<Rightarrow> nat \<Rightarrow> ('v, 'm) dynamicRegistry \<Rightarrow> ('v, 'm) dynamicRegistry" where
  "reg_step env (CallInit rem) a r = r"
| "reg_step env (RunGuard b) a r = (if a = b then run_guard r else r)"
| "reg_step env (RunReceive b x) a r = (if a = b then run_receive env x r else r)"
| "reg_step env (MetricsTick b) a r = (if a = b then reportMetrics_tick env r else r)"
| "reg_step env (CallClose b) a r = (if a = b then snd (Close r) else r)"
| "reg_step env (CallWatch b) a r = (if a = b then snd (Watch r) else r)"

text \<open>
  The invariant of a registry: the map stored is the parse of the value stored, and the
  hub of a closed registry is closed.
\<close>

definition consistent :: "('v, 'p, 'm) collaborators \<Rightarrow> ('v, 'm) dynamicRegistry \<Rightarrow> bool" where
  "consistent env r =
     (getMapFromUpdate env (currentValue r) = Inr (currentMap r) \<and>
      (closed r \<longrightarrow> w_closed (watchable r)))"

text \<open>
  The events of the goroutine of \<^verbatim>\<open>run\<close> of the registry at \<open>a\<close> when its loop makes
  the receives \<open>xs\<close>: for each, the test of the loop condition and the receive.
\<close>

definition loop_events :: "nat \<Rightarrow> 'v received list \<Rightarrow> 'v event list" where
  "loop_events a xs = concat (map (\<lambda>x. [RunGuard a, RunReceive a x]) xs)"

text \<open>
  The values the loop of the registry at \<open>a\<close> receives in a schedule, in order: the
  goroutine of \<^verbatim>\<open>run\<close>, in state \<open>t\<close>, takes a step of the schedule only when it is at
  that point of its loop, and a closed channel ends the loop.
\<close>

fun received_by :: "nat \<Rightarrow> goroutine \<Rightarrow> 'v event list \<Rightarrow> 'v option list" where
  "received_by a t [] = []"
| "received_by a t (RunGuard b # es) =
     (if b = a \<and> t = AtLoopHead then received_by a Blocked es else received_by a t es)"
| "received_by a t (RunReceive b x # es) =
     (if b = a \<and> t = Blocked
      then (case x of ChanClosed \<Rightarrow> [] | Notified d \<Rightarrow> d # received_by a AtLoopHead es)
      else received_by a t es)"
| "received_by a t (e # es) = received_by a t es"

subsection \<open>A concrete run: the scenario of section 8 of the specification\<close>

text \<open>
  A value of the store is a version with a payload; a payload parses to itself unless it
  is garbage or empty; maps are equal when they are the same; a value is newer when its
  version is greater. The store holds version 1 (\<open>nsA: 1d\<close>) from instant 3 on. After
  \<^verbatim>\<open>Init\<close> and a \<^verbatim>\<open>Watch\<close>, the loop receives version 2 with the same content, version 3
  with a new content, and version 2 again.
\<close>

definition scenario_env :: "(int \<times> string, string, string) collaborators" where
  "scenario_env =
     \<lparr>Version = fst,
      IsNewer = (\<lambda>v other. case other of None \<Rightarrow> True | Some c \<Rightarrow> fst c < fst v),
      Unmarshal = (\<lambda>v. if snd v = ''garbage'' then None else Some (snd v)),
      FromProto = (\<lambda>p. if p = [] then Inl (errExternal ''no namespaces'') else Inr p),
      Equal = (\<lambda>m other. m = other),
      Validate = (\<lambda>os. if NamespaceRegistryKey os = [] then Some (errExternal ''key not set'') else None)\<rparr>"

definition scenario_opts :: DynamicOptions where
  "scenario_opts = \<lparr>InitTimeout = 10, NamespaceRegistryKey = ''namespaces''\<rparr>"

definition scenario_remote :: "(int \<times> string) remote" where
  "scenario_remote =
     \<lparr>KV_err = None,
      Watch_err = (\<lambda>key. None),
      arrival = Some 3,
      tie_takes_channel = False,
      Get_at = (\<lambda>t. if t < 3 then None else Some (1, ''nsA:1d''))\<rparr>"

definition unreachable_remote :: "(int \<times> string) remote" where
  "unreachable_remote =
     \<lparr>KV_err = Some (errExternal ''kv unavailable''),
      Watch_err = (\<lambda>key. None),
      arrival = None,
      tie_takes_channel = False,
      Get_at = (\<lambda>t. None)\<rparr>"

definition scenario_events :: "(int \<times> string) event list" where
  "scenario_events =
     [CallInit scenario_remote,
      CallWatch 0,
      RunGuard 0, RunReceive 0 (Notified (Some (2, ''nsA:1d''))),
      RunGuard 0, RunReceive 0 (Notified (Some (3, ''nsA:2d''))),
      MetricsTick 0,
      RunGuard 0, RunReceive 0 (Notified (Some (2, ''nsA:1d'')))]"

text \<open>
  Further inputs: options that ask for no wait, a store whose watch never delivers a
  value, and a store that holds version 1 from the start.
\<close>

definition no_wait_opts :: DynamicOptions where
  "no_wait_opts = \<lparr>InitTimeout = 0, NamespaceRegistryKey = ''namespaces''\<rparr>"

definition silent_remote :: "(int \<times> string) remote" where
  "silent_remote =
     \<lparr>KV_err = None,
      Watch_err = (\<lambda>key. None),
      arrival = None,
      tie_takes_channel = False,
      Get_at = (\<lambda>t. None)\<rparr>"

definition ready_remote :: "(int \<times> string) remote" where
  "ready_remote =
     \<lparr>KV_err = None,
      Watch_err = (\<lambda>key. None),
      arrival = Some 0,
      tie_takes_channel = True,
      Get_at = (\<lambda>t. Some (1, ''nsA:1d''))\<rparr>"

text \<open>The scenario's three deliveries to the loop.\<close>

definition scenario_deliveries :: "(int \<times> string) option list" where
  "scenario_deliveries = [Some (2, ''nsA:1d''), Some (3, ''nsA:2d''), Some (2, ''nsA:1d'')]"

text \<open>
  Two further deliveries, each with a greater version and a new content, with a
  \<^verbatim>\<open>Watch\<close> in between.
\<close>

definition fresh_events :: "(int \<times> string) event list" where
  "fresh_events =
     [RunGuard 0, RunReceive 0 (Notified (Some (2, ''nsA:2d''))),
      CallWatch 0,
      RunGuard 0, RunReceive 0 (Notified (Some (3, ''nsA:3d'')))]"

section \<open>Properties\<close>

subsection \<open>Steps and the heap\<close>

lemmas reg_defs = run_guard_def run_receive_def run_body_def reportMetrics_tick_def Close_def
  Watch_def w_Watch_def w_Close_def w_Update_def invalidUpdate_def isClosed_def maps_r_def
  value_r_def

lemma heap_on_registry:
  "heap (on_registry a f w) = (if a < length (heap w) then (heap w)[a := f (heap w ! a)] else heap w)"
  by (simp add: on_registry_def)

lemma initializer_on_registry: "initializer (on_registry a f w) = initializer w"
  by (simp add: on_registry_def)

lemma Init_heap:
  "heap (snd (Init env rem w)) = heap w \<or>
   (\<exists>reg. newDynamicRegistry env rem (i_opts (initializer w)) = Inr reg \<and>
          i_reg (initializer w) = None \<and> heap (snd (Init env rem w)) = heap w @ [reg])"
  by (simp add: Init_def split: option.splits sum.splits)

lemma step_heap_nth:
  assumes "a < length (heap w)"
  shows "heap (step env e w) ! a = reg_step env e a (heap w ! a)"
proof (cases e)
  case (CallInit rem)
  then show ?thesis
    using assms Init_heap [of env rem w] by (auto simp: nth_append)
qed (use assms in \<open>simp_all add: heap_on_registry\<close>)

lemma step_heap_length: "length (heap w) \<le> length (heap (step env e w))"
proof (cases e)
  case (CallInit rem)
  then show ?thesis using Init_heap [of env rem w] by auto
qed (simp_all add: heap_on_registry)

lemma exec_heap_length: "length (heap w) \<le> length (heap (exec env es w))"
proof (induction es arbitrary: w)
  case Nil
  show ?case by simp
next
  case (Cons e es)
  have "length (heap w) \<le> length (heap (step env e w))" by (rule step_heap_length)
  also have "\<dots> \<le> length (heap (exec env es (step env e w)))" by (rule Cons.IH)
  finally show ?case by simp
qed

lemma exec_append: "exec env (es @ es') w = exec env es' (exec env es w)"
  by (induction es arbitrary: w) simp_all

subsection \<open>What one step does to a registry\<close>

lemma reg_step_closed_mono: "closed r \<Longrightarrow> closed (reg_step env e a r)"
  by (cases e)
    (auto simp: reg_defs split: received.splits option.splits sum.splits prod.splits)

lemma reg_step_closed_by:
  "closed (reg_step env e a r) \<Longrightarrow> \<not> closed r \<Longrightarrow> e = CallClose a \<or> e = RunReceive a ChanClosed"
  by (cases e)
    (auto simp: reg_defs split: received.splits option.splits sum.splits prod.splits if_splits)

lemma reg_step_stored:
  "(currentValue (reg_step env e a r) = currentValue r \<and> currentMap (reg_step env e a r) = currentMap r) \<or>
   (\<exists>v. e = RunReceive a (Notified (Some v)) \<and> run_thread r = Blocked \<and> \<not> rejected env r (Some v) \<and>
        currentValue (reg_step env e a r) = Some v \<and>
        getMapFromUpdate env (Some v) = Inr (currentMap (reg_step env e a r)))"
  by (cases e)
    (auto simp: reg_defs rejected_def
      split: received.splits option.splits sum.splits prod.splits if_splits)

lemma reg_step_consistent: "consistent env r \<Longrightarrow> consistent env (reg_step env e a r)"
  by (cases e)
    (auto simp: reg_defs consistent_def
      split: received.splits option.splits sum.splits prod.splits if_splits)

subsection \<open>Construction\<close>

lemma newDynamicRegistry_Inr_form:
  assumes "newDynamicRegistry env rem os = Inr r"
  shows "\<exists>m. waitOnInit rem (InitTimeout os) = (fst (waitOnInit rem (InitTimeout os)), None) \<and>
             getMapFromUpdate env (Get_at rem (fst (waitOnInit rem (InitTimeout os)))) = Inr m \<and>
             r = \<lparr>opts = os, watchable = \<lparr>w_updates = [m], w_closed = False, w_active = 0\<rparr>,
                  kvWatch_closed = False,
                  currentValue = Get_at rem (fst (waitOnInit rem (InitTimeout os))),
                  currentMap = m, closed = False, numInvalidUpdates = 0, currentVersion = None,
                  run_thread = AtLoopHead, metrics_thread = Blocked\<rparr>"
proof -
  obtain t e where te: "waitOnInit rem (InitTimeout os) = (t, e)"
    by (cases "waitOnInit rem (InitTimeout os)")
  show ?thesis
    using assms unfolding newDynamicRegistry_def te
    by (auto simp: Let_def w_Update_def NewWatchable_def split: option.splits sum.splits)
qed

lemma newDynamicRegistry_Inr:
  assumes "newDynamicRegistry env rem os = Inr r"
  shows "currentValue r = Get_at rem (fst (waitOnInit rem (InitTimeout os)))"
    and "getMapFromUpdate env (currentValue r) = Inr (currentMap r)"
    and "\<not> closed r"
    and "\<not> w_closed (watchable r)"
    and "w_updates (watchable r) = [currentMap r]"
    and "run_thread r = AtLoopHead"
  using newDynamicRegistry_Inr_form [OF assms] by auto

lemma newDynamicRegistry_consistent:
  "newDynamicRegistry env rem os = Inr r \<Longrightarrow> consistent env r"
  using newDynamicRegistry_Inr(2,3) [of env rem os r] by (simp add: consistent_def)

subsection \<open>Invariants of every interleaving\<close>

lemma step_all_consistent:
  assumes "list_all (consistent env) (heap w)"
  shows "list_all (consistent env) (heap (step env e w))"
proof (cases e)
  case (CallInit rem)
  then show ?thesis
    using assms Init_heap [of env rem w] by (auto simp: newDynamicRegistry_consistent)
next
  case (RunGuard a)
  then show ?thesis using assms reg_step_consistent [of env _ "RunGuard a" a]
    by (auto simp: heap_on_registry list_all_length nth_list_update)
next
  case (RunReceive a x)
  then show ?thesis using assms reg_step_consistent [of env _ "RunReceive a x" a]
    by (auto simp: heap_on_registry list_all_length nth_list_update)
next
  case (MetricsTick a)
  then show ?thesis using assms reg_step_consistent [of env _ "MetricsTick a" a]
    by (auto simp: heap_on_registry list_all_length nth_list_update)
next
  case (CallClose a)
  then show ?thesis using assms reg_step_consistent [of env _ "CallClose a" a]
    by (auto simp: heap_on_registry list_all_length nth_list_update)
next
  case (CallWatch a)
  then show ?thesis using assms reg_step_consistent [of env _ "CallWatch a" a]
    by (auto simp: heap_on_registry list_all_length nth_list_update)
qed

lemma exec_all_consistent:
  "list_all (consistent env) (heap w) \<Longrightarrow> list_all (consistent env) (heap (exec env es w))"
  by (induction es arbitrary: w) (simp_all add: step_all_consistent)

lemma reachable_consistent:
  "list_all (consistent env) (heap (exec env es (NewDynamicInitializer os)))"
  by (rule exec_all_consistent) (simp add: NewDynamicInitializer_def)

lemma exec_closed_mono:
  "a < length (heap w) \<Longrightarrow> closed (heap w ! a) \<Longrightarrow> closed (heap (exec env es w) ! a)"
proof (induction es arbitrary: w)
  case Nil
  then show ?case by simp
next
  case (Cons e es)
  have "a < length (heap (step env e w))"
    using Cons.prems(1) step_heap_length [of w env e] by simp
  moreover have "closed (heap (step env e w) ! a)"
    using Cons.prems by (simp add: step_heap_nth reg_step_closed_mono)
  ultimately show ?case using Cons.IH by simp
qed

lemma step_i_reg:
  "i_reg (initializer w) = Some a \<Longrightarrow> i_reg (initializer (step env e w)) = Some a"
  by (cases e) (simp_all add: Init_def initializer_on_registry)

lemma exec_i_reg:
  "i_reg (initializer w) = Some a \<Longrightarrow> i_reg (initializer (exec env es w)) = Some a"
  by (induction es arbitrary: w) (simp_all add: step_i_reg)

lemma Init_Inr_i_reg:
  "Init env rem w = (Inr a, w1) \<Longrightarrow> i_reg (initializer w1) = Some a"
  by (auto simp: Init_def split: option.splits sum.splits)

subsection \<open>The scenario, evaluated\<close>

lemma scenario_Init:
  "fst (Init scenario_env scenario_remote (NewDynamicInitializer scenario_opts)) = Inr 0"
  by code_simp

lemma unreachable_Init:
  "fst (Init scenario_env unreachable_remote (NewDynamicInitializer scenario_opts)) =
     Inl (errExternal ''kv unavailable'')"
  by code_simp

lemma scenario_heap_length:
  "length (heap (exec scenario_env scenario_events (NewDynamicInitializer scenario_opts))) = 1"
  by code_simp

lemma scenario_open:
  "\<not> closed (heap (exec scenario_env scenario_events (NewDynamicInitializer scenario_opts)) ! 0)"
  by code_simp

subsection \<open>What the loop stores and publishes\<close>

lemma run_body_accept:
  assumes "IsNewer env v (currentValue r)" and "getMapFromUpdate env (Some v) = Inr m"
    and "\<not> Equal env m (currentMap r)"
  shows "run_body env (Notified (Some v)) r =
     (True, r\<lparr>currentValue := Some v, currentMap := m, watchable := snd (w_Update (watchable r) m)\<rparr>)"
  using assms by (simp add: run_body_def maps_r_def)

lemma run_body_reject:
  assumes "rejected env r val"
  shows "run_body env (Notified val) r = (True, r\<lparr>numInvalidUpdates := numInvalidUpdates r + 1\<rparr>)"
  using assms
  by (auto simp: rejected_def run_body_def invalidUpdate_def maps_r_def split: option.splits sum.splits)

lemma run_body_publish:
  "(currentValue (snd (run_body env x r)) = currentValue r \<and>
    currentMap (snd (run_body env x r)) = currentMap r \<and>
    w_updates (watchable (snd (run_body env x r))) = w_updates (watchable r)) \<or>
   (\<exists>v. currentValue (snd (run_body env x r)) = Some v \<and> IsNewer env v (currentValue r) \<and>
        getMapFromUpdate env (Some v) = Inr (currentMap (snd (run_body env x r))) \<and>
        (w_updates (watchable (snd (run_body env x r))) =
           w_updates (watchable r) @ [currentMap (snd (run_body env x r))] \<or>
         w_closed (watchable r) \<and>
         w_updates (watchable (snd (run_body env x r))) = w_updates (watchable r)))"
proof (cases x)
  case ChanClosed
  then show ?thesis by (simp add: run_body_def Close_def w_Close_def)
next
  case (Notified val)
  show ?thesis
  proof (cases "rejected env r val")
    case True
    then have "run_body env x r = (True, invalidUpdate r)"
      unfolding Notified
      by (auto simp: rejected_def run_body_def maps_r_def split: option.splits sum.splits)
    then show ?thesis by (simp add: invalidUpdate_def)
  next
    case False
    then obtain v m where v: "val = Some v" and n: "IsNewer env v (currentValue r)"
      and m: "getMapFromUpdate env (Some v) = Inr m" and ne: "\<not> Equal env m (currentMap r)"
      by (auto simp: rejected_def split: option.splits sum.splits)
    then have "run_body env x r =
        (True, r\<lparr>currentValue := Some v, currentMap := m,
                  watchable := snd (w_Update (watchable r) m)\<rparr>)"
      unfolding Notified by (simp add: run_body_def maps_r_def)
    then show ?thesis using n m by (simp add: w_Update_def)
  qed
qed

lemma run_guard_fields:
  "currentValue (run_guard r) = currentValue r"
  "currentMap (run_guard r) = currentMap r"
  "watchable (run_guard r) = watchable r"
  by (simp_all add: run_guard_def)

lemma reportMetrics_tick_fields:
  "currentValue (reportMetrics_tick env r) = currentValue r"
  "currentMap (reportMetrics_tick env r) = currentMap r"
  "watchable (reportMetrics_tick env r) = watchable r"
  by (simp_all add: reportMetrics_tick_def split: option.splits)

lemma Close_fields:
  "currentValue (snd (Close r)) = currentValue r"
  "currentMap (snd (Close r)) = currentMap r"
  "w_updates (watchable (snd (Close r))) = w_updates (watchable r)"
  by (simp_all add: Close_def w_Close_def)

lemma Watch_fields:
  "currentValue (snd (Watch r)) = currentValue r"
  "currentMap (snd (Watch r)) = currentMap r"
  "w_updates (watchable (snd (Watch r))) = w_updates (watchable r)"
  by (simp_all add: Watch_def w_Watch_def)

lemma run_receive_fields:
  "currentValue (run_receive env x r) =
     (if run_thread r = Blocked then currentValue (snd (run_body env x r)) else currentValue r)"
  "currentMap (run_receive env x r) =
     (if run_thread r = Blocked then currentMap (snd (run_body env x r)) else currentMap r)"
  "watchable (run_receive env x r) =
     (if run_thread r = Blocked then watchable (snd (run_body env x r)) else watchable r)"
  by (simp_all add: run_receive_def split: prod.splits bool.splits)

lemma reg_step_publish:
  "(currentValue (reg_step env e a r) = currentValue r \<and>
    currentMap (reg_step env e a r) = currentMap r \<and>
    w_updates (watchable (reg_step env e a r)) = w_updates (watchable r)) \<or>
   (\<exists>v. currentValue (reg_step env e a r) = Some v \<and> IsNewer env v (currentValue r) \<and>
        getMapFromUpdate env (Some v) = Inr (currentMap (reg_step env e a r)) \<and>
        (w_updates (watchable (reg_step env e a r)) =
           w_updates (watchable r) @ [currentMap (reg_step env e a r)] \<or>
         w_closed (watchable r) \<and>
         w_updates (watchable (reg_step env e a r)) = w_updates (watchable r)))"
proof (cases e)
  case (RunReceive b x)
  show ?thesis
  proof (cases "a = b \<and> run_thread r = Blocked")
    case True
    then show ?thesis
      unfolding RunReceive using run_body_publish [of env x r] by (simp add: run_receive_fields)
  next
    case False
    then show ?thesis unfolding RunReceive by (auto simp: run_receive_fields)
  qed
qed (simp_all add: run_guard_fields reportMetrics_tick_fields Close_fields Watch_fields)

lemma exec_version:
  assumes newer: "\<forall>v c. IsNewer env v (Some c) \<longrightarrow> Version env c < Version env v"
  shows "a < length (heap w) \<Longrightarrow> currentValue (heap w ! a) = Some c \<Longrightarrow>
    \<exists>c'. currentValue (heap (exec env es w) ! a) = Some c' \<and>
      (Version env c < Version env c' \<or>
       (c' = c \<and> currentMap (heap (exec env es w) ! a) = currentMap (heap w ! a) \<and>
        w_updates (watchable (heap (exec env es w) ! a)) = w_updates (watchable (heap w ! a))))"
proof (induction es arbitrary: w c)
  case Nil
  then show ?case by simp
next
  case (Cons e es)
  let ?w1 = "step env e w"
  have a1: "a < length (heap ?w1)"
    using Cons.prems(1) step_heap_length [of w env e] by simp
  have r1: "heap ?w1 ! a = reg_step env e a (heap w ! a)"
    using Cons.prems(1) by (rule step_heap_nth)
  have "\<exists>c1. currentValue (heap ?w1 ! a) = Some c1 \<and> (Version env c < Version env c1 \<or>
       (c1 = c \<and> currentMap (heap ?w1 ! a) = currentMap (heap w ! a) \<and>
        w_updates (watchable (heap ?w1 ! a)) = w_updates (watchable (heap w ! a))))"
  proof -
    from reg_step_publish [of env e a "heap w ! a"]
    consider (same) "currentValue (reg_step env e a (heap w ! a)) = currentValue (heap w ! a)"
        "currentMap (reg_step env e a (heap w ! a)) = currentMap (heap w ! a)"
        "w_updates (watchable (reg_step env e a (heap w ! a))) = w_updates (watchable (heap w ! a))"
      | (new) v where "currentValue (reg_step env e a (heap w ! a)) = Some v"
        "IsNewer env v (currentValue (heap w ! a))"
      by blast
    then show ?thesis
    proof cases
      case same
      then show ?thesis using Cons.prems(2) by (simp add: r1)
    next
      case new
      from new(2) have "Version env c < Version env v" using newer Cons.prems(2) by simp
      then show ?thesis using new(1) by (simp add: r1)
    qed
  qed
  then obtain c1 where c1: "currentValue (heap ?w1 ! a) = Some c1"
    and s1: "Version env c < Version env c1 \<or>
       (c1 = c \<and> currentMap (heap ?w1 ! a) = currentMap (heap w ! a) \<and>
        w_updates (watchable (heap ?w1 ! a)) = w_updates (watchable (heap w ! a)))"
    by blast
  from Cons.IH [OF a1 c1]
  obtain c' where c': "currentValue (heap (exec env es ?w1) ! a) = Some c'"
    and s': "Version env c1 < Version env c' \<or>
       (c' = c1 \<and> currentMap (heap (exec env es ?w1) ! a) = currentMap (heap ?w1 ! a) \<and>
        w_updates (watchable (heap (exec env es ?w1) ! a)) = w_updates (watchable (heap ?w1 ! a)))"
    by blast
  from s1 s' have "Version env c < Version env c' \<or>
       (c' = c \<and> currentMap (heap (exec env es ?w1) ! a) = currentMap (heap w ! a) \<and>
        w_updates (watchable (heap (exec env es ?w1) ! a)) = w_updates (watchable (heap w ! a)))"
    by auto
  with c' show ?case by simp
qed

lemma reachable_stored:
  assumes "a < length (heap (exec env es (NewDynamicInitializer os)))"
  shows "getMapFromUpdate env (currentValue (heap (exec env es (NewDynamicInitializer os)) ! a)) =
           Inr (currentMap (heap (exec env es (NewDynamicInitializer os)) ! a))"
proof -
  have "consistent env (heap (exec env es (NewDynamicInitializer os)) ! a)"
    using reachable_consistent [of env es os] assms by (simp add: list_all_length)
  then show ?thesis by (simp add: consistent_def)
qed

lemma parsed_value_not_nil: "getMapFromUpdate env val = Inr m \<Longrightarrow> \<exists>v. val = Some v"
  by (cases val) (simp_all add: getMapFromUpdate_def)

lemma passed_checks_sorted:
  assumes newer: "\<forall>v c. IsNewer env v (Some c) \<longrightarrow> Version env c < Version env v"
  shows "sorted_wrt (<) (Version env c # map (\<lambda>p. Version env (fst p)) (passed_checks env (Some c) cm ds))"
proof (induction ds arbitrary: c cm)
  case Nil
  show ?case by simp
next
  case (Cons d ds)
  show ?case
  proof (cases d)
    case None
    then show ?thesis using Cons.IH [of c cm] by simp
  next
    case (Some v)
    show ?thesis
    proof (cases "IsNewer env v (Some c)")
      case False
      then show ?thesis using Some Cons.IH [of c cm] by simp
    next
      case True
      then have lt: "Version env c < Version env v" using newer by blast
      show ?thesis
      proof (cases "getMapFromUpdate env (Some v)")
        case (Inl err)
        then show ?thesis using Some True Cons.IH [of c cm] by simp
      next
        case (Inr m)
        show ?thesis
        proof (cases "Equal env m cm")
          case True
          then show ?thesis using Some \<open>IsNewer env v (Some c)\<close> Inr Cons.IH [of c cm] by simp
        next
          case False
          have "sorted_wrt (<) (Version env v # map (\<lambda>p. Version env (fst p)) (passed_checks env (Some v) m ds))"
            by (rule Cons.IH)
          then show ?thesis using Some \<open>IsNewer env v (Some c)\<close> Inr False lt by auto
        qed
      qed
    qed
  qed
qed

lemma run_published:
  "\<not> closed r \<Longrightarrow> \<not> w_closed (watchable r) \<Longrightarrow>
   w_updates (watchable (run env (map Notified ds) r)) =
     w_updates (watchable r) @ map snd (passed_checks env (currentValue r) (currentMap r) ds)"
proof (induction ds arbitrary: r)
  case Nil
  show ?case by simp
next
  case (Cons d ds)
  show ?case
  proof (cases "rejected env r d")
    case True
    let ?r' = "r\<lparr>numInvalidUpdates := numInvalidUpdates r + 1\<rparr>"
    have 1: "run env (map Notified (d # ds)) r = run env (map Notified ds) ?r'"
      using Cons.prems(1) run_body_reject [OF True] by (simp add: isClosed_def)
    have 2: "passed_checks env (currentValue r) (currentMap r) (d # ds) =
             passed_checks env (currentValue r) (currentMap r) ds"
      using True by (cases d) (auto simp: rejected_def split: sum.splits)
    have "w_updates (watchable (run env (map Notified ds) ?r')) =
       w_updates (watchable ?r') @ map snd (passed_checks env (currentValue ?r') (currentMap ?r') ds)"
      by (rule Cons.IH) (use Cons.prems in simp_all)
    then show ?thesis unfolding 1 2 by simp
  next
    case False
    then obtain v m where d: "d = Some v" and n: "IsNewer env v (currentValue r)"
      and m: "getMapFromUpdate env (Some v) = Inr m" and ne: "\<not> Equal env m (currentMap r)"
      by (auto simp: rejected_def split: option.splits sum.splits)
    let ?r' = "r\<lparr>currentValue := Some v, currentMap := m, watchable := snd (w_Update (watchable r) m)\<rparr>"
    have 1: "run env (map Notified (d # ds)) r = run env (map Notified ds) ?r'"
      using Cons.prems(1) run_body_accept [OF n m ne] by (simp add: isClosed_def d)
    have 2: "passed_checks env (currentValue r) (currentMap r) (d # ds) =
             (v, m) # passed_checks env (Some v) m ds"
      using n m ne by (simp add: d)
    have 3: "w_updates (watchable ?r') = w_updates (watchable r) @ [m]"
      using Cons.prems(2) by (simp add: w_Update_def)
    have "w_updates (watchable (run env (map Notified ds) ?r')) =
       w_updates (watchable ?r') @ map snd (passed_checks env (currentValue ?r') (currentMap ?r') ds)"
      by (rule Cons.IH) (use Cons.prems in \<open>simp_all add: w_Update_def\<close>)
    then show ?thesis unfolding 1 2 3 by simp
  qed
qed

lemma passed_checks_all:
  assumes newer: "\<forall>v c. Version env c < Version env v \<longrightarrow> IsNewer env v (Some c)"
  shows "sorted_wrt (<) (map (Version env) (c # vs)) \<Longrightarrow>
    map (\<lambda>v. getMapFromUpdate env (Some v)) vs = map Inr ms \<Longrightarrow>
    sorted_wrt (\<lambda>x y. \<not> Equal env y x) (cm # ms) \<Longrightarrow>
    passed_checks env (Some c) cm (map Some vs) = zip vs ms"
proof (induction vs arbitrary: c cm ms)
  case Nil
  then show ?case by simp
next
  case (Cons v vs)
  from Cons.prems(2) obtain m ms' where ms: "ms = m # ms'"
    and m: "getMapFromUpdate env (Some v) = Inr m"
    and rest: "map (\<lambda>v. getMapFromUpdate env (Some v)) vs = map Inr ms'"
    by (cases ms) auto
  have n: "IsNewer env v (Some c)" using Cons.prems(1) newer by simp
  have ne: "\<not> Equal env m cm" using Cons.prems(3) by (simp add: ms)
  have "passed_checks env (Some v) m (map Some vs) = zip vs ms'"
    using Cons.prems(1,3) rest by (intro Cons.IH) (simp_all add: ms)
  then show ?case using n m ne by (simp add: ms)
qed

subsection \<open>The loop as steps of its goroutine\<close>

lemma run_body_run_thread:
  "run_body env x (r\<lparr>run_thread := t\<rparr>) =
     (fst (run_body env x r), (snd (run_body env x r))\<lparr>run_thread := t\<rparr>)"
  by (simp add: run_body_def Close_def invalidUpdate_def maps_r_def
      split: received.splits option.splits sum.splits)

lemma run_body_keeps_run_thread: "run_thread (snd (run_body env x r)) = run_thread r"
  by (simp add: run_body_def Close_def invalidUpdate_def maps_r_def
      split: received.splits option.splits sum.splits)

lemma guard_receive_exited:
  "run_thread r = Exited \<Longrightarrow> run_receive env x (run_guard r) = r"
  by (simp add: run_guard_def run_receive_def)

lemma fold_exited:
  "run_thread r = Exited \<Longrightarrow> fold (\<lambda>x r. run_receive env x (run_guard r)) xs r = r"
  by (induction xs) (simp_all add: guard_receive_exited)

lemma guard_receive:
  assumes "run_thread r = AtLoopHead"
  shows "run_receive env x (run_guard r) =
     (if isClosed r then r\<lparr>run_thread := Exited\<rparr>
      else if fst (run_body env x r) then snd (run_body env x r)
      else (snd (run_body env x r))\<lparr>run_thread := Exited\<rparr>)"
proof (cases "isClosed r")
  case True
  then show ?thesis using assms by (simp add: run_guard_def run_receive_def)
next
  case False
  have g: "run_guard r = r\<lparr>run_thread := Blocked\<rparr>"
    using assms False by (simp add: run_guard_def)
  have k: "(snd (run_body env x r))\<lparr>run_thread := AtLoopHead\<rparr> = snd (run_body env x r)"
    using run_body_keeps_run_thread [of env x r] assms by simp
  show ?thesis
    using False k unfolding g run_receive_def run_body_run_thread
    by (simp split: prod.splits bool.splits)
qed

lemma run_as_steps:
  "run_thread r = AtLoopHead \<Longrightarrow>
   run env xs r = fold (\<lambda>x r. run_receive env x (run_guard r)) xs r"
proof (induction xs arbitrary: r)
  case Nil
  show ?case by simp
next
  case (Cons x xs)
  show ?case
  proof (cases "isClosed r")
    case True
    then show ?thesis
      using Cons.prems by (simp add: guard_receive fold_exited)
  next
    case False
    obtain b r' where br: "run_body env x r = (b, r')" by (cases "run_body env x r")
    have t: "run_thread r' = AtLoopHead"
      using run_body_keeps_run_thread [of env x r] Cons.prems by (simp add: br)
    show ?thesis
    proof (cases b)
      case True
      then show ?thesis
        using False Cons.prems br Cons.IH [OF t] by (simp add: guard_receive)
    next
      case False
      then show ?thesis
        using \<open>\<not> isClosed r\<close> Cons.prems br by (simp add: guard_receive fold_exited)
    qed
  qed
qed

lemma on_registry_twice:
  "on_registry a f (on_registry a g w) = on_registry a (\<lambda>r. f (g r)) w"
  by (simp add: on_registry_def)

lemma exec_loop_events:
  "exec env (loop_events a xs) w =
     on_registry a (fold (\<lambda>x r. run_receive env x (run_guard r)) xs) w"
proof (induction xs arbitrary: w)
  case Nil
  show ?case by (simp add: loop_events_def on_registry_def)
next
  case (Cons x xs)
  have "exec env (loop_events a (x # xs)) w =
        exec env (loop_events a xs) (on_registry a (\<lambda>r. run_receive env x (run_guard r)) w)"
    by (simp add: loop_events_def on_registry_twice)
  also have "\<dots> = on_registry a (fold (\<lambda>x r. run_receive env x (run_guard r)) xs)
                     (on_registry a (\<lambda>r. run_receive env x (run_guard r)) w)"
    by (rule Cons.IH)
  also have "\<dots> = on_registry a (fold (\<lambda>x r. run_receive env x (run_guard r)) (x # xs)) w"
    by (simp add: on_registry_twice comp_def)
  finally show ?case .
qed

lemma exec_loop_events_run:
  assumes "a < length (heap w)" and "run_thread (heap w ! a) = AtLoopHead"
  shows "heap (exec env (loop_events a xs) w) ! a = run env xs (heap w ! a)"
  using assms by (simp add: exec_loop_events heap_on_registry run_as_steps)

subsection \<open>What is published in an interleaving that does not close the registry\<close>

lemma run_body_open:
  "\<not> closed r \<Longrightarrow> \<not> w_closed (watchable r) \<Longrightarrow>
   \<not> closed (snd (run_body env (Notified d) r)) \<and>
   \<not> w_closed (watchable (snd (run_body env (Notified d) r)))"
  by (simp add: run_body_def invalidUpdate_def w_Update_def split: option.splits sum.splits)

lemma run_body_passed:
  assumes "\<not> w_closed (watchable r)"
  shows "w_updates (watchable (snd (run_body env (Notified d) r))) @
           map snd (passed_checks env (currentValue (snd (run_body env (Notified d) r)))
                      (currentMap (snd (run_body env (Notified d) r))) ds) =
         w_updates (watchable r) @ map snd (passed_checks env (currentValue r) (currentMap r) (d # ds))"
proof (cases "rejected env r d")
  case True
  have 2: "passed_checks env (currentValue r) (currentMap r) (d # ds) =
           passed_checks env (currentValue r) (currentMap r) ds"
    using True by (cases d) (auto simp: rejected_def split: sum.splits)
  show ?thesis unfolding run_body_reject [OF True] 2 by simp
next
  case False
  then obtain v m where d: "d = Some v" and n: "IsNewer env v (currentValue r)"
    and m: "getMapFromUpdate env (Some v) = Inr m" and ne: "\<not> Equal env m (currentMap r)"
    by (auto simp: rejected_def split: option.splits sum.splits)
  have 2: "passed_checks env (currentValue r) (currentMap r) (d # ds) =
           (v, m) # passed_checks env (Some v) m ds"
    using n m ne by (simp add: d)
  show ?thesis unfolding d run_body_accept [OF n m ne] 2 [unfolded d]
    using assms by (simp add: w_Update_def)
qed

lemma reg_step_passed:
  assumes o: "\<not> closed r" and h: "\<not> w_closed (watchable r)"
    and nc: "e \<noteq> CallClose a" "e \<noteq> RunReceive a ChanClosed"
  shows "\<not> closed (reg_step env e a r) \<and> \<not> w_closed (watchable (reg_step env e a r)) \<and>
    w_updates (watchable (reg_step env e a r)) @
      map snd (passed_checks env (currentValue (reg_step env e a r)) (currentMap (reg_step env e a r))
                 (received_by a (run_thread (reg_step env e a r)) es)) =
    w_updates (watchable r) @
      map snd (passed_checks env (currentValue r) (currentMap r) (received_by a (run_thread r) (e # es)))"
proof (cases e)
  case (CallInit rem)
  then show ?thesis using o h by simp
next
  case (RunGuard b)
  then show ?thesis using o h by (simp add: run_guard_def isClosed_def)
next
  case (RunReceive b x)
  show ?thesis
  proof (cases "b = a \<and> run_thread r = Blocked")
    case False
    then show ?thesis using o h RunReceive by (auto simp: run_receive_def)
  next
    case True
    with nc RunReceive obtain d where x: "x = Notified d" by (cases x) auto
    obtain r' where r': "run_body env (Notified d) r = (True, r')"
      by (cases "rejected env r d")
        (auto simp: run_body_reject rejected_def run_body_accept split: option.splits sum.splits)
    have 1: "run_receive env (Notified d) r = r'\<lparr>run_thread := AtLoopHead\<rparr>"
      using True by (simp add: run_receive_def r')
    from run_body_open [OF o h, of env d] run_body_passed [OF h, of env d "received_by a AtLoopHead es"]
    show ?thesis using True by (simp add: RunReceive x 1 r')
  qed
next
  case (MetricsTick b)
  then show ?thesis using o h
    by (simp add: reportMetrics_tick_def isClosed_def value_r_def split: option.splits)
next
  case (CallClose b)
  then show ?thesis using o h nc by simp
next
  case (CallWatch b)
  then show ?thesis using o h by (simp add: Watch_def w_Watch_def)
qed

lemma exec_published:
  "a < length (heap w) \<Longrightarrow> \<not> closed (heap w ! a) \<Longrightarrow> \<not> w_closed (watchable (heap w ! a)) \<Longrightarrow>
   CallClose a \<notin> set es \<Longrightarrow> RunReceive a ChanClosed \<notin> set es \<Longrightarrow>
   w_updates (watchable (heap (exec env es w) ! a)) =
     w_updates (watchable (heap w ! a)) @
       map snd (passed_checks env (currentValue (heap w ! a)) (currentMap (heap w ! a))
                  (received_by a (run_thread (heap w ! a)) es))"
proof (induction es arbitrary: w)
  case Nil
  show ?case by simp
next
  case (Cons e es)
  let ?w1 = "step env e w"
  have a1: "a < length (heap ?w1)"
    using Cons.prems(1) step_heap_length [of w env e] by simp
  have r1: "heap ?w1 ! a = reg_step env e a (heap w ! a)"
    using Cons.prems(1) by (rule step_heap_nth)
  have nc: "e \<noteq> CallClose a" "e \<noteq> RunReceive a ChanClosed"
    using Cons.prems(4,5) by auto
  note s = reg_step_passed [OF Cons.prems(2,3) nc, of env es]
  have "w_updates (watchable (heap (exec env es ?w1) ! a)) =
     w_updates (watchable (heap ?w1 ! a)) @
       map snd (passed_checks env (currentValue (heap ?w1 ! a)) (currentMap (heap ?w1 ! a))
                  (received_by a (run_thread (heap ?w1 ! a)) es))"
    using a1 s Cons.prems(4,5) by (intro Cons.IH) (simp_all add: r1)
  then show ?case using s by (simp add: r1)
qed

text \<open>
  The condition that nothing closes the registry is needed. When a \<^verbatim>\<open>Close\<close> by another
  goroutine falls between the test of the loop condition and the section under the write
  lock, the update that passes the checks is stored, and the closed hub rejects it:
  section 5 of the specification sets this race apart (a caller racing \<^verbatim>\<open>Close\<close> is not
  guaranteed to see the last in-flight update applied).
\<close>

lemma close_race_stores_without_publishing:
  "currentValue (heap (exec scenario_env
       [CallInit scenario_remote, RunGuard 0, CallClose 0, RunReceive 0 (Notified (Some (2, ''nsA:2d'')))]
       (NewDynamicInitializer scenario_opts)) ! 0) = Some (2, ''nsA:2d'') \<and>
   w_updates (watchable (heap (exec scenario_env
       [CallInit scenario_remote, RunGuard 0, CallClose 0, RunReceive 0 (Notified (Some (2, ''nsA:2d'')))]
       (NewDynamicInitializer scenario_opts)) ! 0)) = [''nsA:1d'']"
  by code_simp

section \<open>The claims\<close>

text \<open>
  C1. What is published is what passed the checks. Take a registry that is open, and any
  interleaving of steps of the program in which nothing closes it (no \<^verbatim>\<open>Close\<close> on it,
  and the channel of its watch is not closed). Then the maps its hub has accepted are
  those it had accepted before, followed by exactly the maps of the updates that pass the
  four checks among the values its loop receives, in the order of delivery. In
  particular, when the values received have strictly increasing versions (and a greater
  version is newer for the store), all parse, and their maps are pairwise not equal, the
  last one stored included, every one of them is published, in order. The same holds of
  \<^verbatim>\<open>run\<close> as a function, which is the loop of the interleaving when no other goroutine
  acts.
\<close>

theorem published_is_passed_checks:
  assumes a: "a < length (heap w)"
    and opn: "\<not> closed (heap w ! a)" "\<not> w_closed (watchable (heap w ! a))"
    and nc: "CallClose a \<notin> set es" "RunReceive a ChanClosed \<notin> set es"
  shows "w_updates (watchable (heap (exec env es w) ! a)) =
           w_updates (watchable (heap w ! a)) @
             map snd (passed_checks env (currentValue (heap w ! a)) (currentMap (heap w ! a))
                        (received_by a (run_thread (heap w ! a)) es)) \<and>
         ((\<forall>v c. Version env c < Version env v \<longrightarrow> IsNewer env v (Some c)) \<and>
          currentValue (heap w ! a) = Some c \<and>
          received_by a (run_thread (heap w ! a)) es = map Some vs \<and>
          sorted_wrt (<) (map (Version env) (c # vs)) \<and>
          map (\<lambda>v. getMapFromUpdate env (Some v)) vs = map Inr ms \<and>
          sorted_wrt (\<lambda>x y. \<not> Equal env y x) (currentMap (heap w ! a) # ms) \<longrightarrow>
          w_updates (watchable (heap (exec env es w) ! a)) = w_updates (watchable (heap w ! a)) @ ms) \<and>
         w_updates (watchable (run env (map Notified ds) (heap w ! a))) =
           w_updates (watchable (heap w ! a)) @
             map snd (passed_checks env (currentValue (heap w ! a)) (currentMap (heap w ! a)) ds) \<and>
         (run_thread (heap w ! a) = AtLoopHead \<longrightarrow>
          heap (exec env (loop_events a xs) w) ! a = run env xs (heap w ! a))"
proof (intro conjI impI)
  show 1: "w_updates (watchable (heap (exec env es w) ! a)) =
           w_updates (watchable (heap w ! a)) @
             map snd (passed_checks env (currentValue (heap w ! a)) (currentMap (heap w ! a))
                        (received_by a (run_thread (heap w ! a)) es))"
    using a opn nc by (rule exec_published)
  show "w_updates (watchable (run env (map Notified ds) (heap w ! a))) =
           w_updates (watchable (heap w ! a)) @
             map snd (passed_checks env (currentValue (heap w ! a)) (currentMap (heap w ! a)) ds)"
    using opn by (rule run_published)
  {
    assume h: "(\<forall>v c. Version env c < Version env v \<longrightarrow> IsNewer env v (Some c)) \<and>
          currentValue (heap w ! a) = Some c \<and>
          received_by a (run_thread (heap w ! a)) es = map Some vs \<and>
          sorted_wrt (<) (map (Version env) (c # vs)) \<and>
          map (\<lambda>v. getMapFromUpdate env (Some v)) vs = map Inr ms \<and>
          sorted_wrt (\<lambda>x y. \<not> Equal env y x) (currentMap (heap w ! a) # ms)"
    then have "passed_checks env (Some c) (currentMap (heap w ! a)) (map Some vs) = zip vs ms"
      by (intro passed_checks_all) simp_all
    moreover have "length ms = length vs"
      using h map_eq_imp_length_eq [of "\<lambda>v. getMapFromUpdate env (Some v)" vs Inr ms] by simp
    ultimately have "map snd (passed_checks env (currentValue (heap w ! a)) (currentMap (heap w ! a))
        (received_by a (run_thread (heap w ! a)) es)) = ms"
      using h by simp
    then show "w_updates (watchable (heap (exec env es w) ! a)) = w_updates (watchable (heap w ! a)) @ ms"
      unfolding 1 by simp
  }
  {
    assume "run_thread (heap w ! a) = AtLoopHead"
    with a show "heap (exec env (loop_events a xs) w) ! a = run env xs (heap w ! a)"
      by (rule exec_loop_events_run)
  }
qed

theorem published_is_passed_checks_witness:
  "received_by 0 AtLoopHead (tl scenario_events) = scenario_deliveries \<and>
   map snd (passed_checks scenario_env (Some (1, ''nsA:1d'')) ''nsA:1d'' scenario_deliveries) = [''nsA:2d''] \<and>
   w_updates (watchable (heap (exec scenario_env (tl scenario_events)
      (exec scenario_env [CallInit scenario_remote] (NewDynamicInitializer scenario_opts))) ! 0)) =
     [''nsA:1d'', ''nsA:2d''] \<and>
   w_updates (watchable (heap (exec scenario_env fresh_events
      (exec scenario_env [CallInit scenario_remote] (NewDynamicInitializer scenario_opts))) ! 0)) =
     [''nsA:1d'', ''nsA:2d'', ''nsA:3d'']"
proof -
  let ?w = "exec scenario_env [CallInit scenario_remote] (NewDynamicInitializer scenario_opts)"
  have a: "0 < length (heap ?w)" by code_simp
  have o: "\<not> closed (heap ?w ! 0)" "\<not> w_closed (watchable (heap ?w ! 0))" by code_simp+
  have nc: "CallClose 0 \<notin> set (tl scenario_events)" "RunReceive 0 ChanClosed \<notin> set (tl scenario_events)"
    by (simp_all add: scenario_events_def)
  have nc': "CallClose 0 \<notin> set fresh_events" "RunReceive 0 ChanClosed \<notin> set fresh_events"
    by (simp_all add: fresh_events_def)
  have t: "run_thread (heap ?w ! 0) = AtLoopHead" by code_simp
  have cv: "currentValue (heap ?w ! 0) = Some (1, ''nsA:1d'')" by code_simp
  have cm: "currentMap (heap ?w ! 0) = ''nsA:1d''" by code_simp
  have up: "w_updates (watchable (heap ?w ! 0)) = [''nsA:1d'']" by code_simp
  have rb: "received_by 0 AtLoopHead (tl scenario_events) = scenario_deliveries" by code_simp
  have rb': "received_by 0 AtLoopHead fresh_events = map Some [(2, ''nsA:2d''), (3, ''nsA:3d'')]"
    by code_simp
  have p: "map snd (passed_checks scenario_env (Some (1, ''nsA:1d'')) ''nsA:1d'' scenario_deliveries) = [''nsA:2d'']"
    by code_simp
  have newer: "\<forall>v c. Version scenario_env c < Version scenario_env v \<longrightarrow> IsNewer scenario_env v (Some c)"
    by (simp add: scenario_env_def)
  have incr: "sorted_wrt (<) (map (Version scenario_env) [(1, ''nsA:1d''), (2, ''nsA:2d''), (3, ''nsA:3d'')])"
    by (simp add: scenario_env_def)
  have valid: "map (\<lambda>v. getMapFromUpdate scenario_env (Some v)) [(2, ''nsA:2d''), (3, ''nsA:3d'')] =
      map Inr [''nsA:2d'', ''nsA:3d'']"
    by (simp add: scenario_env_def getMapFromUpdate_def)
  have dist: "sorted_wrt (\<lambda>x y. \<not> Equal scenario_env y x) [''nsA:1d'', ''nsA:2d'', ''nsA:3d'']"
    by (simp add: scenario_env_def)
  from published_is_passed_checks [OF a o nc, of scenario_env]
  have 1: "w_updates (watchable (heap (exec scenario_env (tl scenario_events) ?w) ! 0)) =
      w_updates (watchable (heap ?w ! 0)) @
        map snd (passed_checks scenario_env (currentValue (heap ?w ! 0)) (currentMap (heap ?w ! 0))
                   (received_by 0 (run_thread (heap ?w ! 0)) (tl scenario_events)))"
    by (rule conjunct1)
  from published_is_passed_checks [OF a o nc', of scenario_env "(1, ''nsA:1d'')"
      "[(2, ''nsA:2d''), (3, ''nsA:3d'')]" "[''nsA:2d'', ''nsA:3d'']"]
    newer incr valid dist rb'
  have 2: "w_updates (watchable (heap (exec scenario_env fresh_events ?w) ! 0)) =
      w_updates (watchable (heap ?w ! 0)) @ [''nsA:2d'', ''nsA:3d'']"
    unfolding cv cm t by blast
  show ?thesis using 1 2 p rb unfolding cv cm up t by simp
qed

text \<open>
  C2. With a timeout of zero, \<^verbatim>\<open>waitOnInit\<close> does not wait; but \<^verbatim>\<open>newDynamicRegistry\<close> then
  reads the value of the watch at once and parses it. Against the claim that construction
  then returns a running registry whose first value may arrive later: the store of the
  scenario delivers its first value (a valid one) at instant 3, the options are valid and
  ask for no wait, and construction (and \<^verbatim>\<open>Init\<close>) fails with \<open>errInvalidRegistry\<close>.
\<close>

theorem no_wait_without_value_counterexample:
  "InitTimeout no_wait_opts \<le> 0 \<and>
   Get_at scenario_remote 3 = Some (1, ''nsA:1d'') \<and>
   getMapFromUpdate scenario_env (Get_at scenario_remote 3) = Inr ''nsA:1d'' \<and>
   Validate scenario_env no_wait_opts = None \<and>
   newDynamicRegistry scenario_env scenario_remote no_wait_opts = Inl errInvalidRegistry \<and>
   Init scenario_env scenario_remote (NewDynamicInitializer no_wait_opts) =
     (Inl errInvalidRegistry, NewDynamicInitializer no_wait_opts)"
  by (simp add: no_wait_opts_def scenario_remote_def scenario_env_def newDynamicRegistry_def
      waitOnInit_def getMapFromUpdate_def Init_def NewDynamicInitializer_def)

text \<open>
  C2, as amended. When the timeout is zero or negative (and the watch could be opened),
  \<^verbatim>\<open>waitOnInit\<close> returns at once with no error, and the outcome of construction is that of
  parsing what \<^verbatim>\<open>watch.Get()\<close> holds at that instant: with no value yet it fails with
  \<open>errInvalidRegistry\<close>, with a value that does not parse it fails with the error of the
  parse, and with a value that parses it returns an open registry that stores this value
  and its map, has published the map, and has its two goroutines started. \<^verbatim>\<open>Init\<close>, when
  the options are valid and no registry is set, returns the same outcome.
\<close>

theorem no_wait_construction:
  assumes "InitTimeout os \<le> 0" and "KV_err rem = None"
    and "Watch_err rem (NamespaceRegistryKey os) = None"
  shows "waitOnInit rem (InitTimeout os) = (0, None) \<and>
         (Get_at rem 0 = None \<longrightarrow> newDynamicRegistry env rem os = Inl errInvalidRegistry) \<and>
         (\<forall>err. getMapFromUpdate env (Get_at rem 0) = Inl err \<longrightarrow> newDynamicRegistry env rem os = Inl err) \<and>
         (\<forall>m. getMapFromUpdate env (Get_at rem 0) = Inr m \<longrightarrow>
            newDynamicRegistry env rem os =
              Inr \<lparr>opts = os, watchable = \<lparr>w_updates = [m], w_closed = False, w_active = 0\<rparr>,
                   kvWatch_closed = False, currentValue = Get_at rem 0, currentMap = m,
                   closed = False, numInvalidUpdates = 0, currentVersion = None,
                   run_thread = AtLoopHead, metrics_thread = Blocked\<rparr>) \<and>
         (i_reg (initializer w) = None \<and> i_opts (initializer w) = os \<and> Validate env os = None \<longrightarrow>
            fst (Init env rem w) =
              (case newDynamicRegistry env rem os of Inl err \<Rightarrow> Inl err | Inr reg \<Rightarrow> Inr (length (heap w))))"
proof -
  have 1: "waitOnInit rem (InitTimeout os) = (0, None)"
    using assms by (simp add: waitOnInit_def)
  have 2: "newDynamicRegistry env rem os =
      (case getMapFromUpdate env (Get_at rem 0) of
         Inl err \<Rightarrow> Inl err
       | Inr m \<Rightarrow>
          Inr \<lparr>opts = os, watchable = \<lparr>w_updates = [m], w_closed = False, w_active = 0\<rparr>,
                   kvWatch_closed = False, currentValue = Get_at rem 0, currentMap = m,
                   closed = False, numInvalidUpdates = 0, currentVersion = None,
                   run_thread = AtLoopHead, metrics_thread = Blocked\<rparr>)"
    using assms unfolding newDynamicRegistry_def 1
    by (simp add: Let_def w_Update_def NewWatchable_def split: sum.splits)
  have 3: "Get_at rem 0 = None \<longrightarrow> getMapFromUpdate env (Get_at rem 0) = Inl errInvalidRegistry"
    by (simp add: getMapFromUpdate_def)
  have 4: "i_reg (initializer w) = None \<and> i_opts (initializer w) = os \<and> Validate env os = None \<longrightarrow>
            fst (Init env rem w) =
              (case newDynamicRegistry env rem os of Inl err \<Rightarrow> Inl err | Inr reg \<Rightarrow> Inr (length (heap w)))"
    by (auto simp: Init_def split: sum.splits)
  have 5: "Get_at rem 0 = None \<longrightarrow> newDynamicRegistry env rem os = Inl errInvalidRegistry"
    using 3 unfolding 2 by auto
  have 6: "\<forall>err. getMapFromUpdate env (Get_at rem 0) = Inl err \<longrightarrow> newDynamicRegistry env rem os = Inl err"
    unfolding 2 by simp
  have 7: "\<forall>m. getMapFromUpdate env (Get_at rem 0) = Inr m \<longrightarrow>
            newDynamicRegistry env rem os =
              Inr \<lparr>opts = os, watchable = \<lparr>w_updates = [m], w_closed = False, w_active = 0\<rparr>,
                   kvWatch_closed = False, currentValue = Get_at rem 0, currentMap = m,
                   closed = False, numInvalidUpdates = 0, currentVersion = None,
                   run_thread = AtLoopHead, metrics_thread = Blocked\<rparr>"
    unfolding 2 by simp
  from 1 5 6 7 4 show ?thesis by blast
qed
theorem no_wait_construction_witness:
  "waitOnInit ready_remote (InitTimeout no_wait_opts) = (0, None) \<and>
   newDynamicRegistry scenario_env ready_remote no_wait_opts =
     Inr \<lparr>opts = no_wait_opts,
          watchable = \<lparr>w_updates = [''nsA:1d''], w_closed = False, w_active = 0\<rparr>,
          kvWatch_closed = False, currentValue = Some (1, ''nsA:1d''), currentMap = ''nsA:1d'',
          closed = False, numInvalidUpdates = 0, currentVersion = None,
          run_thread = AtLoopHead, metrics_thread = Blocked\<rparr> \<and>
   waitOnInit scenario_remote (InitTimeout no_wait_opts) = (0, None) \<and>
   newDynamicRegistry scenario_env scenario_remote no_wait_opts = Inl errInvalidRegistry"
proof -
  have h: "InitTimeout no_wait_opts \<le> 0" "KV_err ready_remote = None"
    "Watch_err ready_remote (NamespaceRegistryKey no_wait_opts) = None"
    by (simp_all add: no_wait_opts_def ready_remote_def)
  have g: "getMapFromUpdate scenario_env (Get_at ready_remote 0) = Inr ''nsA:1d''"
    "Get_at ready_remote 0 = Some (1, ''nsA:1d'')"
    by (simp_all add: ready_remote_def getMapFromUpdate_def scenario_env_def)
  have h': "InitTimeout no_wait_opts \<le> 0" "KV_err scenario_remote = None"
    "Watch_err scenario_remote (NamespaceRegistryKey no_wait_opts) = None"
    by (simp_all add: no_wait_opts_def scenario_remote_def)
  have g': "Get_at scenario_remote 0 = None" by (simp add: scenario_remote_def)
  from no_wait_construction [OF h, of scenario_env undefined] g
    no_wait_construction [OF h', of scenario_env undefined] g'
  show ?thesis by simp
qed

text \<open>
  C3. A rejected update is counted and skipped. When the value delivered is nil, is not
  newer than the value stored, does not parse, or parses to a map equal to the map
  stored, the iteration of the loop changes nothing but \<open>numInvalidUpdates\<close>, which grows
  by one: the value and the map stored and the hub are as before; and the loop goes on
  (\<^verbatim>\<open>run\<close> continues with the next receive, and the goroutine is back at the head of its
  loop).
\<close>

theorem rejected_update_counted_and_skipped:
  assumes "rejected env r val"
  shows "run_body env (Notified val) r = (True, r\<lparr>numInvalidUpdates := numInvalidUpdates r + 1\<rparr>) \<and>
         currentValue (snd (run_body env (Notified val) r)) = currentValue r \<and>
         currentMap (snd (run_body env (Notified val) r)) = currentMap r \<and>
         watchable (snd (run_body env (Notified val) r)) = watchable r \<and>
         numInvalidUpdates (snd (run_body env (Notified val) r)) = numInvalidUpdates r + 1 \<and>
         (\<not> isClosed r \<longrightarrow>
            run env (Notified val # xs) r = run env xs (r\<lparr>numInvalidUpdates := numInvalidUpdates r + 1\<rparr>)) \<and>
         (run_thread r = Blocked \<longrightarrow>
            run_receive env (Notified val) r =
              r\<lparr>numInvalidUpdates := numInvalidUpdates r + 1, run_thread := AtLoopHead\<rparr>)"
proof -
  have 1: "run_body env (Notified val) r = (True, r\<lparr>numInvalidUpdates := numInvalidUpdates r + 1\<rparr>)"
    using assms
    by (auto simp: rejected_def run_body_def invalidUpdate_def maps_r_def split: option.splits sum.splits)
  show ?thesis unfolding run_receive_def run.simps 1 by simp
qed

theorem rejected_update_counted_and_skipped_witness:
  "rejected scenario_env (heap (exec scenario_env [CallInit scenario_remote] (NewDynamicInitializer scenario_opts)) ! 0)
     (Some (2, ''nsA:1d'')) \<and>
   run_body scenario_env (Notified (Some (2, ''nsA:1d'')))
     (heap (exec scenario_env [CallInit scenario_remote] (NewDynamicInitializer scenario_opts)) ! 0) =
   (True, (heap (exec scenario_env [CallInit scenario_remote] (NewDynamicInitializer scenario_opts)) ! 0)
             \<lparr>numInvalidUpdates := 1\<rparr>)"
proof -
  let ?r = "heap (exec scenario_env [CallInit scenario_remote] (NewDynamicInitializer scenario_opts)) ! 0"
  have h: "rejected scenario_env ?r (Some (2, ''nsA:1d''))" by code_simp
  have n: "numInvalidUpdates ?r = 0" by code_simp
  from rejected_update_counted_and_skipped [OF h] h n show ?thesis by simp
qed

text \<open>
  C4. The version stored only grows. In every step of every interleaving, the value
  stored by a registry either stays, with the map stored and the maps published, or is
  replaced by a value that \<^verbatim>\<open>IsNewer\<close> says is newer than the one stored and whose parse is
  the new map stored, which is then the one map published by that step (or none, when
  the hub is closed). So, for a store whose \<^verbatim>\<open>IsNewer\<close> implies a greater version: over
  any stretch of the life of a registry, either nothing was stored or published, or the
  version stored has strictly grown; and the versions of the updates that pass the checks
  are strictly increasing, all above the version stored at the start.
\<close>

theorem stored_version_increasing:
  assumes newer: "\<forall>v c. IsNewer env v (Some c) \<longrightarrow> Version env c < Version env v"
    and w: "w = exec env es0 (NewDynamicInitializer os)"
    and a: "a < length (heap w)"
  shows "(\<exists>c c'. currentValue (heap w ! a) = Some c \<and>
            currentValue (heap (exec env es w) ! a) = Some c' \<and>
            (Version env c < Version env c' \<or>
             (c' = c \<and> currentMap (heap (exec env es w) ! a) = currentMap (heap w ! a) \<and>
              w_updates (watchable (heap (exec env es w) ! a)) = w_updates (watchable (heap w ! a))))) \<and>
    ((currentValue (heap (step env e w) ! a) = currentValue (heap w ! a) \<and>
      currentMap (heap (step env e w) ! a) = currentMap (heap w ! a) \<and>
      w_updates (watchable (heap (step env e w) ! a)) = w_updates (watchable (heap w ! a))) \<or>
     (\<exists>v. currentValue (heap (step env e w) ! a) = Some v \<and>
          IsNewer env v (currentValue (heap w ! a)) \<and>
          getMapFromUpdate env (Some v) = Inr (currentMap (heap (step env e w) ! a)) \<and>
          (w_updates (watchable (heap (step env e w) ! a)) =
             w_updates (watchable (heap w ! a)) @ [currentMap (heap (step env e w) ! a)] \<or>
           w_closed (watchable (heap w ! a)) \<and>
           w_updates (watchable (heap (step env e w) ! a)) = w_updates (watchable (heap w ! a))))) \<and>
    sorted_wrt (<) (Version env c0 # map (\<lambda>p. Version env (fst p)) (passed_checks env (Some c0) cm ds))"
proof (intro conjI)
  have "getMapFromUpdate env (currentValue (heap w ! a)) = Inr (currentMap (heap w ! a))"
    using a unfolding w by (rule reachable_stored)
  then have "\<exists>c. currentValue (heap w ! a) = Some c" by (rule parsed_value_not_nil)
  then obtain c where c: "currentValue (heap w ! a) = Some c" by (elim exE)
  from exec_version [OF newer a c, of es]
  obtain c' where c': "currentValue (heap (exec env es w) ! a) = Some c'"
    and s: "Version env c < Version env c' \<or>
             (c' = c \<and> currentMap (heap (exec env es w) ! a) = currentMap (heap w ! a) \<and>
              w_updates (watchable (heap (exec env es w) ! a)) = w_updates (watchable (heap w ! a)))"
    by (elim exE conjE)
  show "\<exists>c c'. currentValue (heap w ! a) = Some c \<and>
            currentValue (heap (exec env es w) ! a) = Some c' \<and>
            (Version env c < Version env c' \<or>
             (c' = c \<and> currentMap (heap (exec env es w) ! a) = currentMap (heap w ! a) \<and>
              w_updates (watchable (heap (exec env es w) ! a)) = w_updates (watchable (heap w ! a))))"
    using c c' s by (intro exI conjI)
  show "(currentValue (heap (step env e w) ! a) = currentValue (heap w ! a) \<and>
      currentMap (heap (step env e w) ! a) = currentMap (heap w ! a) \<and>
      w_updates (watchable (heap (step env e w) ! a)) = w_updates (watchable (heap w ! a))) \<or>
     (\<exists>v. currentValue (heap (step env e w) ! a) = Some v \<and>
          IsNewer env v (currentValue (heap w ! a)) \<and>
          getMapFromUpdate env (Some v) = Inr (currentMap (heap (step env e w) ! a)) \<and>
          (w_updates (watchable (heap (step env e w) ! a)) =
             w_updates (watchable (heap w ! a)) @ [currentMap (heap (step env e w) ! a)] \<or>
           w_closed (watchable (heap w ! a)) \<and>
           w_updates (watchable (heap (step env e w) ! a)) = w_updates (watchable (heap w ! a))))"
    unfolding step_heap_nth [OF a] by (rule reg_step_publish)
  show "sorted_wrt (<) (Version env c0 # map (\<lambda>p. Version env (fst p)) (passed_checks env (Some c0) cm ds))"
    using newer by (rule passed_checks_sorted)
qed

theorem stored_version_increasing_witness:
  "currentValue (heap (exec scenario_env [CallInit scenario_remote] (NewDynamicInitializer scenario_opts)) ! 0) =
     Some (1, ''nsA:1d'') \<and>
   currentValue (heap (exec scenario_env (tl scenario_events)
       (exec scenario_env [CallInit scenario_remote] (NewDynamicInitializer scenario_opts))) ! 0) =
     Some (3, ''nsA:2d'') \<and>
   Version scenario_env (1, ''nsA:1d'') < Version scenario_env (3, ''nsA:2d'')"
proof -
  let ?w = "exec scenario_env [CallInit scenario_remote] (NewDynamicInitializer scenario_opts)"
  have newer: "\<forall>v c. IsNewer scenario_env v (Some c) \<longrightarrow> Version scenario_env c < Version scenario_env v"
    by (simp add: scenario_env_def)
  have a: "0 < length (heap ?w)" by code_simp
  have v: "currentValue (heap ?w ! 0) = Some (1, ''nsA:1d'')" by code_simp
  have v': "currentValue (heap (exec scenario_env (tl scenario_events) ?w) ! 0) = Some (3, ''nsA:2d'')"
    by code_simp
  from stored_version_increasing [OF newer refl a, of "tl scenario_events" undefined undefined undefined undefined]
  have "\<exists>c c'. currentValue (heap ?w ! 0) = Some c \<and>
            currentValue (heap (exec scenario_env (tl scenario_events) ?w) ! 0) = Some c' \<and>
            (Version scenario_env c < Version scenario_env c' \<or>
             (c' = c \<and> currentMap (heap (exec scenario_env (tl scenario_events) ?w) ! 0) = currentMap (heap ?w ! 0) \<and>
              w_updates (watchable (heap (exec scenario_env (tl scenario_events) ?w) ! 0)) =
                w_updates (watchable (heap ?w ! 0))))"
    by (rule conjunct1)
  then have "Version scenario_env (1, ''nsA:1d'') < Version scenario_env (3, ''nsA:2d'') \<or>
      (3, ''nsA:2d'') = (1::int, ''nsA:1d'')"
    unfolding v v' by auto
  then have "Version scenario_env (1, ''nsA:1d'') < Version scenario_env (3, ''nsA:2d'')" by simp
  with v v' show ?thesis by (intro conjI)
qed

text \<open>
  C5. The value and the map stored belong together. In every reachable state of the
  program, the map stored by a registry is the parse of the value it stores. A step of
  the program either leaves both as they are, or is the receive of the loop of that
  registry with a value that passes the four checks, which stores this value and its
  parse together. Construction stores the value read from the watch when the wait ended,
  with its parse.
\<close>

theorem stored_pair_same_update:
  assumes w: "w = exec env es (NewDynamicInitializer os)"
    and a: "a < length (heap w)"
  shows "getMapFromUpdate env (currentValue (heap w ! a)) = Inr (currentMap (heap w ! a)) \<and>
    ((currentValue (heap (step env e w) ! a) = currentValue (heap w ! a) \<and>
      currentMap (heap (step env e w) ! a) = currentMap (heap w ! a)) \<or>
     (\<exists>v. e = RunReceive a (Notified (Some v)) \<and> run_thread (heap w ! a) = Blocked \<and>
          \<not> rejected env (heap w ! a) (Some v) \<and>
          currentValue (heap (step env e w) ! a) = Some v \<and>
          getMapFromUpdate env (Some v) = Inr (currentMap (heap (step env e w) ! a)))) \<and>
    (\<forall>rem os' r0. newDynamicRegistry env rem os' = Inr r0 \<longrightarrow>
       currentValue r0 = Get_at rem (fst (waitOnInit rem (InitTimeout os'))) \<and>
       getMapFromUpdate env (currentValue r0) = Inr (currentMap r0))"
proof (intro conjI allI impI)
  show "getMapFromUpdate env (currentValue (heap w ! a)) = Inr (currentMap (heap w ! a))"
    using a unfolding w by (rule reachable_stored)
  show "(currentValue (heap (step env e w) ! a) = currentValue (heap w ! a) \<and>
      currentMap (heap (step env e w) ! a) = currentMap (heap w ! a)) \<or>
     (\<exists>v. e = RunReceive a (Notified (Some v)) \<and> run_thread (heap w ! a) = Blocked \<and>
          \<not> rejected env (heap w ! a) (Some v) \<and>
          currentValue (heap (step env e w) ! a) = Some v \<and>
          getMapFromUpdate env (Some v) = Inr (currentMap (heap (step env e w) ! a)))"
    unfolding step_heap_nth [OF a] by (rule reg_step_stored)
next
  fix rem os' r0
  assume "newDynamicRegistry env rem os' = Inr r0"
  then show "currentValue r0 = Get_at rem (fst (waitOnInit rem (InitTimeout os')))"
    and "getMapFromUpdate env (currentValue r0) = Inr (currentMap r0)"
    by (rule newDynamicRegistry_Inr)+
qed

theorem stored_pair_same_update_witness:
  "getMapFromUpdate scenario_env
     (currentValue (heap (exec scenario_env scenario_events (NewDynamicInitializer scenario_opts)) ! 0)) =
   Inr (currentMap (heap (exec scenario_env scenario_events (NewDynamicInitializer scenario_opts)) ! 0)) \<and>
   currentValue (heap (exec scenario_env scenario_events (NewDynamicInitializer scenario_opts)) ! 0) =
     Some (3, ''nsA:2d'') \<and>
   currentMap (heap (exec scenario_env scenario_events (NewDynamicInitializer scenario_opts)) ! 0) = ''nsA:2d''"
proof -
  let ?w = "exec scenario_env scenario_events (NewDynamicInitializer scenario_opts)"
  have a: "0 < length (heap ?w)" by (simp add: scenario_heap_length)
  have v: "currentValue (heap ?w ! 0) = Some (3, ''nsA:2d'')" by code_simp
  have m: "currentMap (heap ?w ! 0) = ''nsA:2d''" by code_simp
  from stored_pair_same_update [OF refl a, of undefined]
  have "getMapFromUpdate scenario_env (currentValue (heap ?w ! 0)) = Inr (currentMap (heap ?w ! 0))"
    by (rule conjunct1)
  with v m show ?thesis by (intro conjI)
qed

text \<open>
  C6. \<^verbatim>\<open>Init\<close> is idempotent. If a call of \<^verbatim>\<open>Init\<close> returned the registry at address \<open>a\<close>,
  then after any further steps of the program every call of \<^verbatim>\<open>Init\<close> returns the same
  address \<open>a\<close> with no error and changes nothing, whatever the validation of the options
  and the config service would answer (\<open>env'\<close> and \<open>rem'\<close> are arbitrary): neither is
  consulted.
\<close>

theorem Init_idempotent:
  assumes "Init env rem w = (Inr a, w1)"
  shows "Init env' rem' (exec env'' es w1) = (Inr a, exec env'' es w1)"
proof -
  have "i_reg (initializer (exec env'' es w1)) = Some a"
    using assms by (simp add: Init_Inr_i_reg exec_i_reg)
  then show ?thesis by (simp add: Init_def)
qed

theorem Init_idempotent_witness:
  "fst (Init scenario_env scenario_remote (NewDynamicInitializer scenario_opts)) = Inr 0 \<and>
   fst (Init scenario_env unreachable_remote
          (exec scenario_env (tl scenario_events)
             (snd (Init scenario_env scenario_remote (NewDynamicInitializer scenario_opts))))) = Inr 0"
proof -
  let ?i = "Init scenario_env scenario_remote (NewDynamicInitializer scenario_opts)"
  have h: "?i = (Inr 0, snd ?i)"
    using scenario_Init by (cases ?i) simp
  have "fst (Init scenario_env unreachable_remote (exec scenario_env (tl scenario_events) (snd ?i))) = Inr 0"
    by (subst Init_idempotent [OF h]) (rule fst_conv)
  with scenario_Init show ?thesis by (rule conjI)
qed

text \<open>
  C7. The initialization timeout. With a positive timeout, a watch that could be opened
  and on which no value ever arrives: \<^verbatim>\<open>waitOnInit\<close> returns \<open>errInitTimeOut\<close> when the timer
  fires, after the timeout; \<^verbatim>\<open>newDynamicRegistry\<close> fails with this error, and so does
  \<^verbatim>\<open>Init\<close> when the options are valid and no registry is set, leaving the initializer as
  it was. The error differs from every other error of the file and from every error made
  outside it.
\<close>

theorem init_timeout_error:
  assumes "0 < InitTimeout os" and "arrival rem = None"
    and "KV_err rem = None" and "Watch_err rem (NamespaceRegistryKey os) = None"
  shows "waitOnInit rem (InitTimeout os) = (nat (InitTimeout os), Some errInitTimeOut) \<and>
         newDynamicRegistry env rem os = Inl errInitTimeOut \<and>
         (i_reg (initializer w) = None \<and> i_opts (initializer w) = os \<and> Validate env os = None \<longrightarrow>
            Init env rem w = (Inl errInitTimeOut, w)) \<and>
         errInitTimeOut \<noteq> errInvalidRegistry \<and> errInitTimeOut \<noteq> errRegistryAlreadyClosed \<and>
         errInitTimeOut \<noteq> errWatchableClosed \<and> errInitTimeOut \<noteq> errExternal s"
proof -
  have 1: "waitOnInit rem (InitTimeout os) = (nat (InitTimeout os), Some errInitTimeOut)"
    using assms by (simp add: waitOnInit_def)
  have 2: "newDynamicRegistry env rem os = Inl errInitTimeOut"
    using assms unfolding newDynamicRegistry_def 1 by simp
  show ?thesis using 1 2 by (simp add: Init_def)
qed

theorem init_timeout_error_witness:
  "waitOnInit silent_remote (InitTimeout scenario_opts) = (10, Some errInitTimeOut) \<and>
   newDynamicRegistry scenario_env silent_remote scenario_opts = Inl errInitTimeOut \<and>
   Init scenario_env silent_remote (NewDynamicInitializer scenario_opts) =
     (Inl errInitTimeOut, NewDynamicInitializer scenario_opts)"
proof -
  have h: "0 < InitTimeout scenario_opts" "arrival silent_remote = None" "KV_err silent_remote = None"
    "Watch_err silent_remote (NamespaceRegistryKey scenario_opts) = None"
    by (simp_all add: scenario_opts_def silent_remote_def)
  have i: "i_reg (initializer (NewDynamicInitializer scenario_opts)) = None"
     "i_opts (initializer (NewDynamicInitializer scenario_opts)) = scenario_opts"
     "Validate scenario_env scenario_opts = None"
    by (simp_all add: NewDynamicInitializer_def scenario_env_def scenario_opts_def)
  have t: "nat (InitTimeout scenario_opts) = 10" by (simp add: scenario_opts_def)
  from init_timeout_error [OF h, of scenario_env "NewDynamicInitializer scenario_opts"] i
  have "waitOnInit silent_remote (InitTimeout scenario_opts) =
          (nat (InitTimeout scenario_opts), Some errInitTimeOut)"
    and "newDynamicRegistry scenario_env silent_remote scenario_opts = Inl errInitTimeOut"
    and "Init scenario_env silent_remote (NewDynamicInitializer scenario_opts) =
          (Inl errInitTimeOut, NewDynamicInitializer scenario_opts)"
    by blast+
  then show ?thesis unfolding t by blast
qed

text \<open>
  C8. \<^verbatim>\<open>Close\<close> twice, and \<^verbatim>\<open>Watch\<close> after \<^verbatim>\<open>Close\<close>. In a reachable state of the program,
  \<^verbatim>\<open>Close\<close> on a registry that is not closed returns no error and marks it closed. After
  that call and any further steps, \<^verbatim>\<open>Close\<close> returns \<open>errRegistryAlreadyClosed\<close> and
  changes nothing, and \<^verbatim>\<open>Watch\<close> returns the error of the closed hub and no subscription.
\<close>

theorem Close_twice_Watch_after_Close:
  assumes w: "w = exec env es0 (NewDynamicInitializer os)"
    and a: "a < length (heap w)"
    and first: "\<not> closed (heap w ! a)"
    and w': "w' = exec env es (step env (CallClose a) w)"
  shows "fst (Close (heap w ! a)) = None \<and> closed (snd (Close (heap w ! a))) \<and>
         heap (step env (CallClose a) w) ! a = snd (Close (heap w ! a)) \<and>
         Close (heap w' ! a) = (Some errRegistryAlreadyClosed, heap w' ! a) \<and>
         Watch (heap w' ! a) = (Inl errWatchableClosed, heap w' ! a)"
proof -
  let ?w1 = "step env (CallClose a) w"
  have 1: "heap ?w1 ! a = snd (Close (heap w ! a))"
    using a by (simp add: heap_on_registry)
  have a1: "a < length (heap ?w1)" using a by (simp add: heap_on_registry)
  have c1: "closed (heap ?w1 ! a)" unfolding 1 by (simp add: Close_def)
  have c': "closed (heap w' ! a)" unfolding w' using a1 c1 by (rule exec_closed_mono)
  have a': "a < length (heap w')"
    unfolding w' using a1 exec_heap_length [of ?w1 env es] by simp
  have "w' = exec env (es0 @ CallClose a # es) (NewDynamicInitializer os)"
    unfolding w' w by (simp add: exec_append)
  then have "list_all (consistent env) (heap w')" by (simp add: reachable_consistent)
  then have "consistent env (heap w' ! a)" using a' by (simp add: list_all_length)
  then have h: "w_closed (watchable (heap w' ! a))" using c' by (simp add: consistent_def)
  show ?thesis using first 1 c' h by (simp add: Close_def Watch_def w_Watch_def)
qed

theorem Close_twice_Watch_after_Close_witness:
  "fst (Close (heap (exec scenario_env scenario_events (NewDynamicInitializer scenario_opts)) ! 0)) = None \<and>
   fst (Close (heap (exec scenario_env (scenario_events @ CallClose 0 # tl scenario_events)
                 (NewDynamicInitializer scenario_opts)) ! 0)) = Some errRegistryAlreadyClosed \<and>
   fst (Watch (heap (exec scenario_env (scenario_events @ CallClose 0 # tl scenario_events)
                 (NewDynamicInitializer scenario_opts)) ! 0)) = Inl errWatchableClosed"
proof -
  let ?w = "exec scenario_env scenario_events (NewDynamicInitializer scenario_opts)"
  have a: "0 < length (heap ?w)" by (simp add: scenario_heap_length)
  from Close_twice_Watch_after_Close [OF refl a scenario_open refl, of "tl scenario_events"]
  show ?thesis by (simp add: exec_append)
qed

text \<open>
  C9. A failed \<^verbatim>\<open>Init\<close> does not poison the initializer. If \<^verbatim>\<open>Init\<close> returns an error, the
  program is unchanged and the registry of the initializer is still unset, so the next
  call validates the options again and constructs afresh with what the config service
  answers then (\<open>rem'\<close>).
\<close>

theorem failed_Init_not_poisoning:
  assumes "Init env rem w = (Inl err, w1)"
  shows "w1 = w \<and> i_reg (initializer w1) = None \<and>
    Init env rem' w1 =
      (case Validate env (i_opts (initializer w1)) of
         Some e \<Rightarrow> (Inl e, w1)
       | None \<Rightarrow>
           (case newDynamicRegistry env rem' (i_opts (initializer w1)) of
              Inl e \<Rightarrow> (Inl e, w1)
            | Inr reg \<Rightarrow>
                (Inr (length (heap w1)),
                 w1\<lparr>heap := heap w1 @ [reg],
                    initializer := (initializer w1)\<lparr>i_reg := Some (length (heap w1))\<rparr>\<rparr>)))"
proof -
  from assms have 1: "w1 = w" and 2: "i_reg (initializer w) = None"
    by (auto simp: Init_def split: option.splits sum.splits)
  show ?thesis using 1 2 by (simp add: Init_def split: option.splits sum.splits)
qed

theorem failed_Init_not_poisoning_witness:
  "fst (Init scenario_env unreachable_remote (NewDynamicInitializer scenario_opts)) =
     Inl (errExternal ''kv unavailable'') \<and>
   snd (Init scenario_env unreachable_remote (NewDynamicInitializer scenario_opts)) =
     NewDynamicInitializer scenario_opts \<and>
   i_reg (initializer (snd (Init scenario_env unreachable_remote (NewDynamicInitializer scenario_opts)))) = None \<and>
   fst (Init scenario_env scenario_remote
          (snd (Init scenario_env unreachable_remote (NewDynamicInitializer scenario_opts)))) = Inr 0"
proof -
  let ?i = "Init scenario_env unreachable_remote (NewDynamicInitializer scenario_opts)"
  have h: "?i = (Inl (errExternal ''kv unavailable''), snd ?i)"
    using unreachable_Init by (cases ?i) simp
  from failed_Init_not_poisoning [OF h, of scenario_remote]
  have 1: "snd ?i = NewDynamicInitializer scenario_opts" and 2: "i_reg (initializer (snd ?i)) = None"
    by blast+
  have 3: "fst (Init scenario_env scenario_remote (snd ?i)) = Inr 0"
    unfolding 1 by (rule scenario_Init)
  from unreachable_Init 1 2 3 show ?thesis by blast
qed

text \<open>
  C10. The closed flag is monotone. A registry is constructed open; in every
  interleaving a registry that is closed stays closed (so once \<^verbatim>\<open>isClosed\<close> has returned
  true it returns true ever after); and a step that closes an open registry is a
  successful \<^verbatim>\<open>Close\<close>, called directly or by the loop when the channel of the watch is
  closed.
\<close>

theorem closed_flag_monotone:
  "(newDynamicRegistry env rem os = Inr r0 \<longrightarrow> \<not> isClosed r0) \<and>
   (a < length (heap w) \<and> isClosed (heap w ! a) \<longrightarrow> isClosed (heap (exec env es w) ! a)) \<and>
   (a < length (heap w) \<and> \<not> isClosed (heap w ! a) \<and> isClosed (heap (step env e w) ! a) \<longrightarrow>
      (e = CallClose a \<or> e = RunReceive a ChanClosed) \<and> fst (Close (heap w ! a)) = None)"
proof (intro conjI impI)
  assume "newDynamicRegistry env rem os = Inr r0"
  then show "\<not> isClosed r0"
    using newDynamicRegistry_Inr(3) [of env rem os r0] by (simp add: isClosed_def)
next
  assume "a < length (heap w) \<and> isClosed (heap w ! a)"
  then show "isClosed (heap (exec env es w) ! a)"
    by (simp add: isClosed_def exec_closed_mono)
next
  assume h: "a < length (heap w) \<and> \<not> isClosed (heap w ! a) \<and> isClosed (heap (step env e w) ! a)"
  then have "closed (reg_step env e a (heap w ! a))" "\<not> closed (heap w ! a)"
    using step_heap_nth [of a w env e] by (simp_all add: isClosed_def)
  then show "e = CallClose a \<or> e = RunReceive a ChanClosed" by (rule reg_step_closed_by)
  from h show "fst (Close (heap w ! a)) = None" by (simp add: Close_def isClosed_def)
qed

theorem closed_flag_monotone_witness:
  "\<not> isClosed (heap (exec scenario_env scenario_events (NewDynamicInitializer scenario_opts)) ! 0) \<and>
   isClosed (heap (exec scenario_env (scenario_events @ [CallClose 0]) (NewDynamicInitializer scenario_opts)) ! 0) \<and>
   isClosed (heap (exec scenario_env (scenario_events @ CallClose 0 # tl scenario_events)
                (NewDynamicInitializer scenario_opts)) ! 0)"
proof -
  let ?w = "exec scenario_env (scenario_events @ [CallClose 0]) (NewDynamicInitializer scenario_opts)"
  have 1: "0 < length (heap ?w) \<and> isClosed (heap ?w ! 0)"
    by code_simp
  have 2: "\<not> isClosed (heap (exec scenario_env scenario_events (NewDynamicInitializer scenario_opts)) ! 0)"
    by code_simp
  from closed_flag_monotone
    [of scenario_env scenario_remote scenario_opts undefined 0 ?w "tl scenario_events" undefined] 1
  have "isClosed (heap (exec scenario_env (tl scenario_events) ?w) ! 0)" by blast
  then show ?thesis using 1 2 by (simp add: exec_append)
qed

end
